theory Spec2Isabelle
  imports Complex_Main "HOL-Library.Log_Nat"
begin

section \<open>Python numbers\<close>

text \<open>
  The reference implementation \<^verbatim>\<open>pricing.py\<close> computes with Python's numbers: unbounded
  \<^verbatim>\<open>int\<close> and binary64 \<^verbatim>\<open>float\<close>. Its results depend on the rounding of binary64
  (the second scenario of the specification ends on a sum that lies just below a
  rounding boundary), so the arithmetic is modelled as it is performed and not over the
  reals.

  A finite float is represented by the rational number it denotes; the sign of a zero is
  not recorded (\<^verbatim>\<open>-0.0 == 0.0\<close> in Python, and nothing in \<^verbatim>\<open>pricing.py\<close> divides by
  a computed value).
\<close>

subsection \<open>Rounding\<close>

text \<open>Rounding a rational to the nearest integer, a tie going to the even one.\<close>

definition rhe :: "rat \<Rightarrow> int" where
  "rhe x = (let f = \<lfloor>x\<rfloor>; d = x - of_int f in
     if d < 1 / 2 then f else if 1 / 2 < d then f + 1 else if even f then f else f + 1)"

text \<open>The integer \<open>k\<close> with \<open>2 powi k \<le> q < 2 powi (k + 1)\<close>, for a positive \<open>q\<close>.\<close>

definition ilog2 :: "rat \<Rightarrow> int" where
  "ilog2 q = (if 1 \<le> q then bitlen \<lfloor>q\<rfloor> - 1 else - bitlen (\<lceil>1 / q\<rceil> - 1))"

text \<open>
  The binary64 grid around \<open>q\<close> has the spacing \<open>2 powi e\<close>, where a normal number has 53
  significant bits and the subnormal numbers share the exponent \<open>-1074\<close>. \<open>rne\<close> rounds to
  the nearest point of that grid, ties to the even significand, with no bound on the
  exponent from above.
\<close>

definition expo :: "rat \<Rightarrow> int" where
  "expo q = max (ilog2 \<bar>q\<bar> - 52) (- 1074)"

definition rne :: "rat \<Rightarrow> rat" where
  "rne q = (if q = 0 then 0 else of_int (rhe (q / 2 powi expo q)) * 2 powi expo q)"

datatype pyfloat = Finite rat | PosInf | NegInf | NaN

text \<open>Rounding to binary64: a result of magnitude \<open>2 ^ 1024\<close> or more overflows to an infinity.\<close>

definition fl :: "rat \<Rightarrow> pyfloat" where
  "fl q = (let r = rne q in
     if 2 ^ 1024 \<le> r then PosInf else if r \<le> - (2 ^ 1024) then NegInf else Finite r)"

subsection \<open>Float arithmetic\<close>

fun fneg :: "pyfloat \<Rightarrow> pyfloat" where
  "fneg (Finite a) = Finite (- a)"
| "fneg PosInf = NegInf"
| "fneg NegInf = PosInf"
| "fneg NaN = NaN"

fun fadd :: "pyfloat \<Rightarrow> pyfloat \<Rightarrow> pyfloat" where
  "fadd (Finite a) (Finite b) = fl (a + b)"
| "fadd NaN y = NaN"
| "fadd x NaN = NaN"
| "fadd PosInf NegInf = NaN"
| "fadd NegInf PosInf = NaN"
| "fadd PosInf y = PosInf"
| "fadd NegInf y = NegInf"
| "fadd (Finite a) y = y"

definition fsub :: "pyfloat \<Rightarrow> pyfloat \<Rightarrow> pyfloat" where
  "fsub x y = fadd x (fneg y)"

text \<open>The sign of a float that is not a NaN: \<open>-1\<close>, \<open>0\<close> or \<open>1\<close>.\<close>

fun fsgn :: "pyfloat \<Rightarrow> int" where
  "fsgn (Finite a) = (if a < 0 then - 1 else if a = 0 then 0 else 1)"
| "fsgn PosInf = 1"
| "fsgn NegInf = - 1"
| "fsgn NaN = 0"

fun fmul :: "pyfloat \<Rightarrow> pyfloat \<Rightarrow> pyfloat" where
  "fmul (Finite a) (Finite b) = fl (a * b)"
| "fmul NaN y = NaN"
| "fmul x NaN = NaN"
| "fmul x y = (if fsgn x * fsgn y = 0 then NaN else if 0 < fsgn x * fsgn y then PosInf else NegInf)"

subsection \<open>Numbers, errors and the operators of the source\<close>

datatype pynum = PyInt int | PyFloat pyfloat

datatype error = KeyError string | OverflowError | ZeroDivisionError

text \<open>Sequencing of computations that may raise: the first exception ends the call.\<close>

fun andthen :: "error + 'a \<Rightarrow> ('a \<Rightarrow> error + 'b) \<Rightarrow> error + 'b" where
  "andthen (Inl e) f = Inl e"
| "andthen (Inr x) f = f x"

text \<open>A float literal of the source denotes the binary64 number nearest to its decimal.\<close>

definition lit :: "rat \<Rightarrow> pynum" where
  "lit q = PyFloat (fl q)"

text \<open>
  Mixed arithmetic converts the \<^verbatim>\<open>int\<close> operand to a float, correctly rounded; an
  \<^verbatim>\<open>int\<close> beyond the range of binary64 raises \<^verbatim>\<open>OverflowError\<close>.
\<close>

fun as_float :: "pynum \<Rightarrow> error + pyfloat" where
  "as_float (PyInt n) = (case fl (of_int n) of Finite r \<Rightarrow> Inr (Finite r) | _ \<Rightarrow> Inl OverflowError)"
| "as_float (PyFloat x) = Inr x"

fun py_mul :: "pynum \<Rightarrow> pynum \<Rightarrow> error + pynum" where
  "py_mul (PyInt a) (PyInt b) = Inr (PyInt (a * b))"
| "py_mul x y = andthen (as_float x) (\<lambda>a. andthen (as_float y) (\<lambda>b. Inr (PyFloat (fmul a b))))"

fun py_add :: "pynum \<Rightarrow> pynum \<Rightarrow> error + pynum" where
  "py_add (PyInt a) (PyInt b) = Inr (PyInt (a + b))"
| "py_add x y = andthen (as_float x) (\<lambda>a. andthen (as_float y) (\<lambda>b. Inr (PyFloat (fadd a b))))"

fun py_sub :: "pynum \<Rightarrow> pynum \<Rightarrow> error + pynum" where
  "py_sub (PyInt a) (PyInt b) = Inr (PyInt (a - b))"
| "py_sub x y = andthen (as_float x) (\<lambda>a. andthen (as_float y) (\<lambda>b. Inr (PyFloat (fsub a b))))"

text \<open>
  True division \<^verbatim>\<open>/\<close>. Of two \<^verbatim>\<open>int\<close>s it is the correctly rounded quotient; a zero
  divisor raises \<^verbatim>\<open>ZeroDivisionError\<close>.
\<close>

fun fdiv :: "pyfloat \<Rightarrow> pyfloat \<Rightarrow> error + pyfloat" where
  "fdiv x (Finite b) =
     (if b = 0 then Inl ZeroDivisionError
      else Inr (case x of Finite a \<Rightarrow> fl (a / b)
                | NaN \<Rightarrow> NaN
                | _ \<Rightarrow> (if 0 < fsgn x * fsgn (Finite b) then PosInf else NegInf)))"
| "fdiv x NaN = Inr NaN"
| "fdiv (Finite a) y = Inr (Finite 0)"
| "fdiv x y = Inr NaN"

fun py_truediv :: "pynum \<Rightarrow> pynum \<Rightarrow> error + pynum" where
  "py_truediv (PyInt a) (PyInt b) =
     (if b = 0 then Inl ZeroDivisionError
      else case fl (of_int a / of_int b) of
             Finite r \<Rightarrow> Inr (PyFloat (Finite r)) | _ \<Rightarrow> Inl OverflowError)"
| "py_truediv x y =
     andthen (as_float x) (\<lambda>a. andthen (as_float y) (\<lambda>b.
     andthen (fdiv a b) (\<lambda>c. Inr (PyFloat c))))"

text \<open>
  \<^verbatim>\<open>round(x, 2)\<close>. An \<^verbatim>\<open>int\<close> is returned as it is. A finite float is rounded
  correctly, on its exact value and ties to even, to a decimal with two digits after
  the point, and that decimal is converted back to the nearest float. Infinities and NaN
  round to themselves.
\<close>

fun py_round2 :: "pynum \<Rightarrow> pynum" where
  "py_round2 (PyInt n) = PyInt n"
| "py_round2 (PyFloat (Finite q)) = PyFloat (fl (of_int (rhe (q * 100)) / 100))"
| "py_round2 (PyFloat x) = PyFloat x"

text \<open>
  Comparisons are on the exact values, also between an \<^verbatim>\<open>int\<close> and a float; every
  comparison with a NaN is false.
\<close>

fun py_val :: "pynum \<Rightarrow> pyfloat" where
  "py_val (PyInt n) = Finite (of_int n)"
| "py_val (PyFloat x) = x"

fun fge :: "pyfloat \<Rightarrow> pyfloat \<Rightarrow> bool" where
  "fge (Finite a) (Finite b) = (b \<le> a)"
| "fge NaN y = False"
| "fge x NaN = False"
| "fge PosInf y = True"
| "fge x NegInf = True"
| "fge x y = False"

definition py_ge :: "pynum \<Rightarrow> pynum \<Rightarrow> bool" where
  "py_ge a b = fge (py_val a) (py_val b)"

definition py_eq :: "pynum \<Rightarrow> pynum \<Rightarrow> bool" where
  "py_eq a b = (py_val a \<noteq> NaN \<and> py_val a = py_val b)"

fun is_finite :: "pynum \<Rightarrow> bool" where
  "is_finite (PyInt n) = True"
| "is_finite (PyFloat (Finite q)) = True"
| "is_finite (PyFloat x) = False"

section \<open>The pricing functions\<close>

text \<open>
  A line item is \<^verbatim>\<open>{price: float, quantity: int}\<close>; the scenarios of the specification
  also pass an \<^verbatim>\<open>int\<close> price. The user is a dictionary of strings, in which a key may
  be absent; \<^verbatim>\<open>user[k]\<close> raises \<^verbatim>\<open>KeyError\<close> then.
\<close>

record item =
  price :: pynum
  quantity :: int

type_synonym user = "string \<rightharpoonup> string"

definition subscript :: "(string \<rightharpoonup> 'a) \<Rightarrow> string \<Rightarrow> error + 'a" where
  "subscript d k = (case d k of None \<Rightarrow> Inl (KeyError k) | Some v \<Rightarrow> Inr v)"

definition dict_get :: "(string \<rightharpoonup> 'a) \<Rightarrow> string \<Rightarrow> 'a \<Rightarrow> 'a" where
  "dict_get d k dflt = (case d k of None \<Rightarrow> dflt | Some v \<Rightarrow> v)"

text \<open>
  \<^verbatim>\<open>sum(item['price'] * item['quantity'] for item in items)\<close>: the products are added
  from left to right, starting from the \<^verbatim>\<open>int\<close> 0. (CPython from 3.12 on adds a
  compensation term when it sums several floats, which can change the last bit of the
  sum; on a list with one item, as in every scenario below, there is nothing to
  compensate.)
\<close>

fun sum_products :: "pynum \<Rightarrow> item list \<Rightarrow> error + pynum" where
  "sum_products acc [] = Inr acc"
| "sum_products acc (it # its) =
     andthen (py_mul (price it) (PyInt (quantity it))) (\<lambda>p.
     andthen (py_add acc p) (\<lambda>acc'. sum_products acc' its))"

definition total_items :: "item list \<Rightarrow> int" where
  "total_items items = sum_list (map quantity items)"

definition volume_discount :: "pynum \<Rightarrow> item list \<Rightarrow> error + pynum" where
  "volume_discount subtotal items =
     (if total_items items \<ge> 10 then py_mul subtotal (lit (10 / 100)) else Inr (PyInt 0))"

definition tier_discounts :: "string \<rightharpoonup> pynum" where
  "tier_discounts = [''bronze'' \<mapsto> lit (5 / 100), ''silver'' \<mapsto> lit (10 / 100), ''gold'' \<mapsto> lit (15 / 100)]"

definition loyalty_discount :: "pynum \<Rightarrow> user \<Rightarrow> error + pynum" where
  "loyalty_discount subtotal user =
     andthen (subscript user ''loyaltyTier'') (\<lambda>tier.
     py_mul subtotal (dict_get tier_discounts tier (PyInt 0)))"

definition effective_tax_rate :: "user \<Rightarrow> pynum option \<Rightarrow> error + pynum" where
  "effective_tax_rate user tax_rate =
     (case tax_rate of
        None \<Rightarrow> andthen (subscript user ''state'') (\<lambda>st.
                  Inr (if st = ''CA'' then lit (8 / 100) else lit (5 / 100)))
      | Some r \<Rightarrow> Inr r)"

record order_summary =
  subtotal :: pynum
  discount :: pynum
  tax :: pynum
  total :: pynum

definition calculate_total :: "item list \<Rightarrow> user \<Rightarrow> pynum option \<Rightarrow> error + order_summary" where
  "calculate_total items user tax_rate =
     andthen (sum_products (PyInt 0) items) (\<lambda>subtotal.
     andthen (volume_discount subtotal items) (\<lambda>volume_discount.
     andthen (loyalty_discount subtotal user) (\<lambda>loyalty_discount.
     andthen (py_add volume_discount loyalty_discount) (\<lambda>total_discount.
     andthen (effective_tax_rate user tax_rate) (\<lambda>tax_rate.
     andthen (py_sub subtotal total_discount) (\<lambda>taxable_amount.
     andthen (py_mul taxable_amount tax_rate) (\<lambda>tax.
     andthen (py_sub subtotal total_discount) (\<lambda>net.
     andthen (py_add net tax) (\<lambda>total.
     Inr \<lparr>subtotal = py_round2 subtotal, discount = py_round2 total_discount,
          tax = py_round2 tax, total = py_round2 total\<rparr>)))))))))"

definition apply_discount :: "pynum \<Rightarrow> pynum \<Rightarrow> error + pynum" where
  "apply_discount amount discount_percent =
     andthen (py_truediv discount_percent (PyInt 100)) (\<lambda>fraction.
     andthen (py_mul amount fraction) (\<lambda>discount.
     andthen (py_sub amount discount) (\<lambda>reduced.
     Inr (py_round2 reduced))))"

definition validate_order :: "pynum \<Rightarrow> pynum option \<Rightarrow> bool" where
  "validate_order order_total minimum =
     py_ge order_total (case minimum of None \<Rightarrow> lit 10 | Some m \<Rightarrow> m)"

text \<open>The value of a finite number.\<close>

fun rv :: "pynum \<Rightarrow> rat" where
  "rv (PyInt n) = of_int n"
| "rv (PyFloat (Finite q)) = q"
| "rv (PyFloat x) = 0"

text \<open>
  The call returned a summary whose four fields compare equal (\<^verbatim>\<open>==\<close>) to the given
  numbers.
\<close>

definition returns_fields ::
    "error + order_summary \<Rightarrow> pynum \<Rightarrow> pynum \<Rightarrow> pynum \<Rightarrow> pynum \<Rightarrow> bool" where
  "returns_fields r a b c d =
     (case r of Inl e \<Rightarrow> False
      | Inr s \<Rightarrow> py_eq (subtotal s) a \<and> py_eq (discount s) b \<and> py_eq (tax s) c \<and> py_eq (total s) d)"

text \<open>
  The formula of the specification for \<^verbatim>\<open>apply_discount\<close>, in one expression:
  \<^verbatim>\<open>round(amount - amount * (discount_percent / 100), 2)\<close>.
\<close>

definition apply_discount_formula :: "pynum \<Rightarrow> pynum \<Rightarrow> error + pynum" where
  "apply_discount_formula amount discount_percent =
     andthen (andthen (andthen (py_truediv discount_percent (PyInt 100)) (py_mul amount))
       (py_sub amount)) (\<lambda>x. Inr (py_round2 x))"

text \<open>
  The local \<^verbatim>\<open>taxable_amount\<close> of \<^verbatim>\<open>calculate_total\<close>, as a function of the
  arguments it is computed from.
\<close>

definition taxable_amount :: "item list \<Rightarrow> user \<Rightarrow> error + pynum" where
  "taxable_amount items user =
     andthen (sum_products (PyInt 0) items) (\<lambda>subtotal.
     andthen (volume_discount subtotal items) (\<lambda>volume_discount.
     andthen (loyalty_discount subtotal user) (\<lambda>loyalty_discount.
     andthen (py_add volume_discount loyalty_discount) (\<lambda>total_discount.
     py_sub subtotal total_discount))))"

text \<open>
  The comparison \<^verbatim>\<open>summary['discount'] >= summary['subtotal'] * 0.10\<close> on a returned
  summary.
\<close>

definition discount_at_least_tenth :: "order_summary \<Rightarrow> bool" where
  "discount_at_least_tenth s =
     (case py_mul (subtotal s) (lit (10 / 100)) of Inl e \<Rightarrow> False | Inr v \<Rightarrow> py_ge (discount s) v)"

text \<open>A float that is not negative: a finite binary64 number from 0 on, or the infinity.\<close>

fun nonneg_float :: "pyfloat \<Rightarrow> bool" where
  "nonneg_float (Finite a) = (0 \<le> a \<and> rne a = a \<and> a < 2 ^ 1024)"
| "nonneg_float PosInf = True"
| "nonneg_float x = False"

text \<open>
  \<^verbatim>\<open>round(summary['subtotal'] - summary['discount'] + summary['tax'], 2)\<close>, the total
  recomputed from the returned fields.
\<close>

definition recomputed_total :: "order_summary \<Rightarrow> error + pynum" where
  "recomputed_total s =
     andthen (py_sub (subtotal s) (discount s)) (\<lambda>net.
     andthen (py_add net (tax s)) (\<lambda>y. Inr (py_round2 y)))"

text \<open>
  The argument of \<^verbatim>\<open>round\<close> in \<^verbatim>\<open>apply_discount\<close>: \<^verbatim>\<open>amount - discount\<close>, before it
  is rounded.
\<close>

definition discounted :: "pynum \<Rightarrow> pynum \<Rightarrow> error + pynum" where
  "discounted amount discount_percent =
     andthen (py_truediv discount_percent (PyInt 100)) (\<lambda>fraction.
     andthen (py_mul amount fraction) (\<lambda>discount.
     py_sub amount discount))"

section \<open>Properties of the rounding functions\<close>

lemma rhe_cases: "rhe x = \<lfloor>x\<rfloor> \<or> rhe x = \<lfloor>x\<rfloor> + 1"
  by (simp add: rhe_def Let_def)

lemma rhe_bounds: "\<bar>of_int (rhe x) - x\<bar> \<le> 1 / 2"
proof -
  have "of_int \<lfloor>x\<rfloor> \<le> x" "x < of_int \<lfloor>x\<rfloor> + 1" by linarith+
  then show ?thesis
    by (auto simp add: rhe_def Let_def abs_le_iff)
qed

lemma rhe_of_int [simp]: "rhe (of_int n) = n"
  by (simp add: rhe_def)

lemma rhe_mono: "x \<le> y \<Longrightarrow> rhe x \<le> rhe y"
proof -
  assume xy: "x \<le> y"
  then have fl: "\<lfloor>x\<rfloor> \<le> \<lfloor>y\<rfloor>" by (rule floor_mono)
  show ?thesis
  proof (cases "\<lfloor>x\<rfloor> = \<lfloor>y\<rfloor>")
    case True
    with xy show ?thesis by (auto simp add: rhe_def Let_def)
  next
    case False
    with fl have "\<lfloor>x\<rfloor> + 1 \<le> \<lfloor>y\<rfloor>" by simp
    moreover have "rhe x \<le> \<lfloor>x\<rfloor> + 1" using rhe_cases [of x] by auto
    moreover have "\<lfloor>y\<rfloor> \<le> rhe y" using rhe_cases [of y] by auto
    ultimately show ?thesis by linarith
  qed
qed

lemma rhe_minus: "rhe (- x) = - rhe x"
proof (cases "x \<in> \<int>")
  case True
  then obtain n where "x = of_int n" by (auto elim: Ints_cases)
  then show ?thesis by (simp flip: of_int_minus)
next
  case False
  then have ne: "of_int \<lfloor>x\<rfloor> \<noteq> x"
    by (metis Ints_of_int)
  have le: "of_int \<lfloor>x\<rfloor> \<le> x" and up: "x < of_int \<lfloor>x\<rfloor> + 1" by linarith+
  from le ne have lt: "of_int \<lfloor>x\<rfloor> < x" by (rule le_neq_trans)
  from lt up have f: "\<lfloor>- x\<rfloor> = - \<lfloor>x\<rfloor> - 1"
    by (intro floor_unique) auto
  show ?thesis
    using ne by (auto simp add: rhe_def Let_def f)
qed

lemma powi2_less_cancel: "(2::rat) powi a < 2 powi b \<Longrightarrow> a < b"
proof (rule ccontr)
  assume lt: "(2::rat) powi a < 2 powi b" and "\<not> a < b"
  then have "b \<le> a" by simp
  then have "(2::rat) powi b \<le> 2 powi a" by (intro power_int_increasing) auto
  with lt show False by simp
qed

lemma powi2_pos [simp]: "0 < (2::rat) powi e"
  by simp

lemma powi2_Suc: "(2::rat) powi (e + 1) = 2 powi e * 2"
  by (rule power_int_add_1) simp

lemma ilog2_bounds:
  assumes "0 < q"
  shows "2 powi ilog2 q \<le> q" and "q < 2 powi (ilog2 q + 1)"
proof -
  have "2 powi ilog2 q \<le> q \<and> q < 2 powi (ilog2 q + 1)"
  proof (cases "1 \<le> q")
    case True
    define n where "n = \<lfloor>q\<rfloor>"
    have n1: "1 \<le> n" using True by (simp add: n_def le_floor_iff)
    then have npos: "0 < n" by simp
    have b1: "1 \<le> bitlen n" using npos bitlen_eq_zero_iff [of n] bitlen_nonneg [of n] by linarith
    from bitlen_bounds [OF npos]
    have lo: "2 ^ nat (bitlen n - 1) \<le> n" and hi: "n < 2 ^ nat (bitlen n)" by auto
    have il: "ilog2 q = bitlen n - 1" using True by (simp add: ilog2_def n_def)
    have "(2::rat) powi (bitlen n - 1) = 2 ^ nat (bitlen n - 1)"
      using b1 by (simp add: power_int_def)
    also have "\<dots> = of_int (2 ^ nat (bitlen n - 1))" by simp
    also have "\<dots> \<le> of_int n" using lo by (simp only: of_int_le_iff)
    also have "\<dots> \<le> q" by (simp add: n_def)
    finally have A: "2 powi ilog2 q \<le> q" by (simp add: il)
    from hi have "n + 1 \<le> 2 ^ nat (bitlen n)" by simp
    then have "(of_int (n + 1) :: rat) \<le> of_int (2 ^ nat (bitlen n))" by (simp only: of_int_le_iff)
    moreover have "q < of_int (n + 1)" by (simp add: n_def) linarith
    ultimately have "q < 2 ^ nat (bitlen n)" by simp
    also have "\<dots> = 2 powi (bitlen n)" using b1 by (simp add: power_int_def)
    finally have "q < 2 powi (ilog2 q + 1)" by (simp add: il)
    with A show ?thesis by simp
  next
    case False
    then have q1: "q < 1" by simp
    define y where "y = 1 / q"
    have y1: "1 < y" using assms q1 by (simp add: y_def)
    define m where "m = \<lceil>y\<rceil> - 1"
    have my: "of_int m < y" by (simp add: m_def) linarith
    have ym: "y \<le> of_int m + 1" by (simp add: m_def)
    have "1 < \<lceil>y\<rceil>" using y1 by (simp add: less_ceiling_iff)
    then have mpos: "0 < m" by (simp add: m_def)
    have b1: "1 \<le> bitlen m" using mpos bitlen_eq_zero_iff [of m] bitlen_nonneg [of m] by linarith
    from bitlen_bounds [OF mpos]
    have lo: "2 ^ nat (bitlen m - 1) \<le> m" and hi: "m < 2 ^ nat (bitlen m)" by auto
    have il: "ilog2 q = - bitlen m" using False by (simp add: ilog2_def m_def y_def)
    from hi have "m + 1 \<le> 2 ^ nat (bitlen m)" by simp
    then have "(of_int (m + 1) :: rat) \<le> of_int (2 ^ nat (bitlen m))" by (simp only: of_int_le_iff)
    with ym have "y \<le> 2 ^ nat (bitlen m)" by simp
    then have "1 / q \<le> 2 ^ nat (bitlen m)" by (simp add: y_def)
    then have "1 \<le> 2 ^ nat (bitlen m) * q" using assms by (simp add: field_simps)
    then have "1 / 2 ^ nat (bitlen m) \<le> q" by (simp add: field_simps)
    moreover have "(2::rat) powi (- bitlen m) = 1 / 2 ^ nat (bitlen m)"
      using b1 by (simp add: power_int_def field_simps)
    ultimately have A: "2 powi ilog2 q \<le> q" by (simp add: il)
    have "(2::rat) ^ nat (bitlen m - 1) \<le> of_int m" using lo by simp
    with my have "2 ^ nat (bitlen m - 1) < y" by linarith
    then have "2 ^ nat (bitlen m - 1) < 1 / q" by (simp add: y_def)
    then have "2 ^ nat (bitlen m - 1) * q < 1" using assms by (simp add: field_simps)
    then have "q < 1 / 2 ^ nat (bitlen m - 1)" by (simp add: field_simps)
    moreover have "(2::rat) powi (- bitlen m + 1) = 1 / 2 ^ nat (bitlen m - 1)"
    proof -
      have "(2::rat) powi (- bitlen m + 1) = 2 powi (- (bitlen m - 1))" by simp
      also have "\<dots> = inverse (2 powi (bitlen m - 1))" by (rule power_int_minus)
      also have "\<dots> = 1 / 2 ^ nat (bitlen m - 1)" using b1 by (simp add: power_int_def field_simps)
      finally show ?thesis .
    qed
    ultimately have "q < 2 powi (ilog2 q + 1)" by (simp add: il)
    with A show ?thesis by simp
  qed
  then show "2 powi ilog2 q \<le> q" and "q < 2 powi (ilog2 q + 1)" by simp_all
qed

lemma ilog2_unique:
  assumes "2 powi k \<le> q" and "q < 2 powi (k + 1)"
  shows "ilog2 q = k"
proof -
  have "0 < (2::rat) powi k" by simp
  with assms have qpos: "0 < q" by linarith
  note b = ilog2_bounds [OF qpos]
  from b(1) assms(2) have "(2::rat) powi ilog2 q < 2 powi (k + 1)" by linarith
  then have "ilog2 q < k + 1" by (rule powi2_less_cancel)
  moreover from assms(1) b(2) have "(2::rat) powi k < 2 powi (ilog2 q + 1)" by linarith
  then have "k < ilog2 q + 1" by (rule powi2_less_cancel)
  ultimately show ?thesis by simp
qed

lemma ilog2_mono:
  assumes "0 < x" and "x \<le> y"
  shows "ilog2 x \<le> ilog2 y"
proof -
  from assms have ypos: "0 < y" by simp
  from ilog2_bounds(1) [OF assms(1)] ilog2_bounds(2) [OF ypos] assms(2)
  have "(2::rat) powi ilog2 x < 2 powi (ilog2 y + 1)" by linarith
  then have "ilog2 x < ilog2 y + 1" by (rule powi2_less_cancel)
  then show ?thesis by simp
qed

lemma expo_ge: "- 1074 \<le> expo q"
  by (simp add: expo_def)

lemma expo_minus [simp]: "expo (- q) = expo q"
  by (simp add: expo_def)

lemma expo_upper:
  assumes "q \<noteq> 0"
  shows "\<bar>q\<bar> < 2 powi (expo q + 53)"
proof -
  from assms have pos: "0 < \<bar>q\<bar>" by simp
  have "ilog2 \<bar>q\<bar> + 1 \<le> expo q + 53" by (simp add: expo_def)
  then have "(2::rat) powi (ilog2 \<bar>q\<bar> + 1) \<le> 2 powi (expo q + 53)"
    by (intro power_int_increasing) auto
  with ilog2_bounds(2) [OF pos] show ?thesis by linarith
qed

lemma expo_lower:
  assumes "q \<noteq> 0" and "- 1074 < expo q"
  shows "2 powi (expo q + 52) \<le> \<bar>q\<bar>"
proof -
  from assms(1) have pos: "0 < \<bar>q\<bar>" by simp
  from assms(2) have "expo q = ilog2 \<bar>q\<bar> - 52" by (simp add: expo_def max_def split: if_splits)
  then have "expo q + 52 = ilog2 \<bar>q\<bar>" by simp
  with ilog2_bounds(1) [OF pos] show ?thesis by simp
qed

lemma expo_mono:
  assumes "x \<noteq> 0" and "\<bar>x\<bar> \<le> \<bar>y\<bar>"
  shows "expo x \<le> expo y"
proof -
  from assms(1) have "0 < \<bar>x\<bar>" by simp
  from ilog2_mono [OF this assms(2)] show ?thesis by (simp add: expo_def)
qed

lemma expo_unique:
  assumes "- 1074 \<le> e" and "\<bar>q\<bar> < 2 powi (e + 53)"
    and "e = - 1074 \<or> 2 powi (e + 52) \<le> \<bar>q\<bar>" and "q \<noteq> 0"
  shows "expo q = e"
proof -
  from assms(4) have pos: "0 < \<bar>q\<bar>" by simp
  from ilog2_bounds(1) [OF pos] assms(2) have "(2::rat) powi ilog2 \<bar>q\<bar> < 2 powi (e + 53)" by linarith
  then have up: "ilog2 \<bar>q\<bar> - 52 \<le> e" using powi2_less_cancel by fastforce
  show ?thesis
  proof (cases "e = - 1074")
    case True
    with up show ?thesis by (simp add: expo_def)
  next
    case False
    with assms(3) have "2 powi (e + 52) \<le> \<bar>q\<bar>" by simp
    with ilog2_bounds(2) [OF pos] have "(2::rat) powi (e + 52) < 2 powi (ilog2 \<bar>q\<bar> + 1)" by linarith
    then have "e + 52 < ilog2 \<bar>q\<bar> + 1" by (rule powi2_less_cancel)
    with up assms(1) show ?thesis by (simp add: expo_def)
  qed
qed

lemma rne_0 [simp]: "rne 0 = 0"
  by (simp add: rne_def)

lemma rne_minus: "rne (- q) = - rne q"
  by (simp add: rne_def rhe_minus)

lemma powi2_add: "(2::rat) powi (a + b) = 2 powi a * 2 powi b"
  by (rule power_int_add) simp

lemma mant_bound:
  assumes "q \<noteq> 0"
  shows "\<bar>rhe (q / 2 powi expo q)\<bar> \<le> 2 ^ 53"
proof -
  let ?p = "(2::rat) powi expo q"
  have p: "0 < ?p" by simp
  from expo_upper [OF assms] have "\<bar>q\<bar> < ?p * 2 ^ 53" by (simp add: powi2_add)
  then have "\<bar>q\<bar> / ?p < 2 ^ 53" using p by (simp add: field_simps)
  moreover define z where "z = q / ?p"
  ultimately have "\<bar>z\<bar> < 2 ^ 53" by (simp add: abs_divide)
  then have "z \<le> of_int (2 ^ 53)" and "of_int (- (2 ^ 53)) \<le> z" by simp_all
  from rhe_mono [OF this(1)] rhe_mono [OF this(2)] show ?thesis
    unfolding rhe_of_int z_def by simp
qed

lemma rne_nonneg: "0 \<le> q \<Longrightarrow> 0 \<le> rne q"
proof -
  assume "0 \<le> q"
  then have "of_int 0 \<le> q / 2 powi expo q" by simp
  from rhe_mono [OF this] show ?thesis unfolding rhe_of_int by (simp add: rne_def)
qed

lemma rne_mono_pos:
  assumes "0 < x" and "x \<le> y"
  shows "rne x \<le> rne y"
proof -
  from assms have x0: "x \<noteq> 0" and y0: "y \<noteq> 0" and ypos: "0 < y" by simp_all
  from assms have "\<bar>x\<bar> \<le> \<bar>y\<bar>" by simp
  from expo_mono [OF x0 this] have e: "expo x \<le> expo y" .
  show ?thesis
  proof (cases "expo x = expo y")
    case True
    have "x / 2 powi expo y \<le> y / 2 powi expo y" using assms(2) by (simp add: divide_right_mono)
    from rhe_mono [OF this] show ?thesis using x0 y0 True by (simp add: rne_def)
  next
    case False
    with e have lt: "expo x < expo y" by simp
    with expo_ge [of x] have "- 1074 < expo y" by simp
    from expo_lower [OF y0 this] ypos have "2 powi expo y * 2 ^ 52 \<le> y" by (simp add: powi2_add)
    then have "of_int (2 ^ 52) \<le> y / 2 powi expo y" by (simp add: field_simps)
    from rhe_mono [OF this] have "2 ^ 52 \<le> rhe (y / 2 powi expo y)" unfolding rhe_of_int .
    then have "(2::rat) ^ 52 \<le> of_int (rhe (y / 2 powi expo y))" by simp
    then have "(2::rat) ^ 52 * 2 powi expo y \<le> of_int (rhe (y / 2 powi expo y)) * 2 powi expo y"
      by (intro mult_right_mono) simp_all
    then have low: "2 powi (expo y + 52) \<le> rne y" using y0 by (simp add: rne_def powi2_add mult.commute)
    from mant_bound [OF x0] have "rhe (x / 2 powi expo x) \<le> 2 ^ 53" by simp
    then have "(of_int (rhe (x / 2 powi expo x)) :: rat) \<le> 2 ^ 53" by simp
    then have "(of_int (rhe (x / 2 powi expo x)) :: rat) * 2 powi expo x \<le> 2 ^ 53 * 2 powi expo x"
      by (intro mult_right_mono) simp_all
    then have "rne x \<le> 2 powi (expo x + 53)" using x0 by (simp add: rne_def powi2_add mult.commute)
    also have "\<dots> \<le> 2 powi (expo y + 52)" using lt by (intro power_int_increasing) auto
    finally show ?thesis using low by simp
  qed
qed

lemma rne_mono:
  assumes "x \<le> y"
  shows "rne x \<le> rne y"
proof (cases "0 < x")
  case True
  then show ?thesis using assms by (rule rne_mono_pos)
next
  case False
  then have x: "x \<le> 0" by simp
  show ?thesis
  proof (cases "0 \<le> y")
    case True
    from x have "0 \<le> rne (- x)" by (intro rne_nonneg) simp
    then have "rne x \<le> 0" by (simp add: rne_minus)
    with rne_nonneg [OF True] show ?thesis by simp
  next
    case False
    then have "0 < - y" and "- y \<le> - x" using assms by simp_all
    from rne_mono_pos [OF this] show ?thesis by (simp add: rne_minus)
  qed
qed

lemma rne_fixed:
  assumes "q / 2 powi expo q \<in> \<int>"
  shows "rne q = q"
proof -
  from assms obtain n where n: "q / 2 powi expo q = of_int n" by (auto elim: Ints_cases)
  then have "rhe (q / 2 powi expo q) = n" by simp
  moreover from n have "q = of_int n * 2 powi expo q" by (simp add: field_simps)
  ultimately show ?thesis by (simp add: rne_def)
qed

lemma rne_grid_less:
  assumes e: "- 1074 \<le> e" and m: "\<bar>m\<bar> < 2 ^ 53"
  shows "rne (of_int m * 2 powi e) = of_int m * 2 powi e"
proof (cases "m = 0")
  case True
  then show ?thesis by simp
next
  case False
  let ?q = "of_int m * (2::rat) powi e"
  have q0: "?q \<noteq> 0" using False by simp
  have "\<bar>?q\<bar> = of_int \<bar>m\<bar> * 2 powi e" by (simp add: abs_mult)
  also have "\<dots> < 2 ^ 53 * 2 powi e"
  proof (rule mult_strict_right_mono)
    from m show "(of_int \<bar>m\<bar> :: rat) < 2 ^ 53" by (metis of_int_less_numeral_power_cancel_iff)
  qed simp
  also have "\<dots> = 2 powi (e + 53)" by (simp add: powi2_add)
  finally have up: "\<bar>?q\<bar> < 2 powi (e + 53)" .
  have "0 < \<bar>?q\<bar>" using q0 by simp
  from ilog2_bounds(1) [OF this] up have "(2::rat) powi ilog2 \<bar>?q\<bar> < 2 powi (e + 53)" by linarith
  then have "ilog2 \<bar>?q\<bar> < e + 53" by (rule powi2_less_cancel)
  with e have le: "expo ?q \<le> e" by (simp add: expo_def)
  define ex where "ex = expo ?q"
  define d where "d = nat (e - ex)"
  have "e = ex + int d" using le by (simp add: d_def ex_def)
  then have "(2::rat) powi e = 2 powi ex * 2 ^ d"
    by (metis powi2_add power_int_of_nat)
  then have "of_int m * (2::rat) powi e / 2 powi ex = of_int (m * 2 ^ d)" by simp
  then have "?q / 2 powi expo ?q = of_int (m * 2 ^ d)" by (simp only: ex_def)
  then have "?q / 2 powi expo ?q \<in> \<int>" by (metis Ints_of_int)
  then show ?thesis by (rule rne_fixed)
qed

lemma rne_grid:
  assumes e: "- 1074 \<le> e" and m: "\<bar>m\<bar> \<le> 2 ^ 53"
  shows "rne (of_int m * 2 powi e) = of_int m * 2 powi e"
proof (cases "\<bar>m\<bar> < 2 ^ 53")
  case True
  with e show ?thesis by (rule rne_grid_less)
next
  case False
  with m have "\<bar>m\<bar> = 2 ^ 53" by simp
  then consider "m = 2 ^ 53" | "m = - (2 ^ 53)" by (auto simp add: abs_if split: if_splits)
  then show ?thesis
  proof cases
    case 1
    have "- 1074 \<le> e + 53" using e by simp
    from rne_grid_less [OF this, of 1] show ?thesis using 1 by (simp add: powi2_add mult.commute)
  next
    case 2
    have "- 1074 \<le> e + 53" using e by simp
    from rne_grid_less [OF this, of "- 1"] show ?thesis using 2 by (simp add: powi2_add mult.commute)
  qed
qed

lemma rne_idem [simp]: "rne (rne q) = rne q"
proof (cases "q = 0")
  case True
  then show ?thesis by simp
next
  case False
  from rne_grid [OF expo_ge mant_bound [OF False]] show ?thesis using False by (simp add: rne_def)
qed

lemma rne_error:
  assumes "q \<noteq> 0"
  shows "\<bar>rne q - q\<bar> \<le> 2 powi expo q / 2"
proof -
  let ?p = "(2::rat) powi expo q"
  have p: "0 < ?p" by simp
  have "rne q - q = (of_int (rhe (q / ?p)) - q / ?p) * ?p"
    using assms by (simp add: rne_def algebra_simps)
  then have "\<bar>rne q - q\<bar> = \<bar>of_int (rhe (q / ?p)) - q / ?p\<bar> * ?p"
    by (simp add: abs_mult)
  also have "\<dots> \<le> 1 / 2 * ?p"
    by (intro mult_right_mono rhe_bounds) simp
  finally show ?thesis by simp
qed

lemma powi2_nat: "0 \<le> k \<Longrightarrow> (2::rat) powi k = 2 ^ nat k"
  by (simp add: power_int_def)

lemma grid_overflow_iff:
  assumes "0 < m"
  shows "(2 ^ 1024 \<le> (of_int m :: rat) * 2 powi e) = (1024 < e + bitlen m)"
proof -
  have b1: "1 \<le> bitlen m" using assms bitlen_eq_zero_iff [of m] bitlen_nonneg [of m] by linarith
  from bitlen_bounds [OF assms]
  have lo: "2 ^ nat (bitlen m - 1) \<le> m" and hi: "m < 2 ^ nat (bitlen m)" by auto
  from lo have lo': "(2::rat) powi (bitlen m - 1) \<le> of_int m"
    using b1 by (simp add: powi2_nat)
  from hi have hi': "(of_int m :: rat) < 2 powi bitlen m"
    using b1 by (simp add: powi2_nat)
  show ?thesis
  proof (cases "1024 < e + bitlen m")
    case True
    then have "(2::rat) powi 1024 \<le> 2 powi (bitlen m - 1 + e)"
      by (intro power_int_increasing) auto
    also have "\<dots> = 2 powi (bitlen m - 1) * 2 powi e" by (rule powi2_add)
    also have "\<dots> \<le> of_int m * 2 powi e" using lo' by (intro mult_right_mono) simp_all
    finally show ?thesis using True by simp
  next
    case False
    have "(of_int m :: rat) * 2 powi e < 2 powi bitlen m * 2 powi e"
      using hi' by (intro mult_strict_right_mono) simp_all
    also have "\<dots> = 2 powi (bitlen m + e)" by (simp add: powi2_add)
    also have "\<dots> \<le> 2 powi 1024" using False by (intro power_int_increasing) auto
    finally show ?thesis using False by simp
  qed
qed

lemma mant_lower:
  assumes "q \<noteq> 0" and "- 1074 < expo q"
  shows "2 ^ 52 \<le> \<bar>rhe (q / 2 powi expo q)\<bar>"
proof -
  let ?p = "(2::rat) powi expo q"
  have p: "0 < ?p" by simp
  from expo_lower [OF assms] have "?p * 2 ^ 52 \<le> \<bar>q\<bar>" by (simp add: powi2_add)
  then have "2 ^ 52 \<le> \<bar>q\<bar> / ?p" using p by (simp add: field_simps)
  moreover define z where "z = q / ?p"
  ultimately have "2 ^ 52 \<le> \<bar>z\<bar>" by (simp add: abs_divide)
  then consider "of_int (2 ^ 52) \<le> z" | "z \<le> of_int (- (2 ^ 52))" by (auto simp add: abs_if split: if_splits)
  then show ?thesis
  proof cases
    case 1
    from rhe_mono [OF this] show ?thesis unfolding rhe_of_int z_def by simp
  next
    case 2
    from rhe_mono [OF this] show ?thesis unfolding rhe_of_int z_def by simp
  qed
qed

lemma fl_code [code]:
  "fl q = (if q = 0 then Finite 0 else
     (let e = expo q; m = rhe (q / 2 powi e) in
        if 1024 < e + bitlen \<bar>m\<bar> then (if 0 < m then PosInf else NegInf)
        else Finite (of_int m * 2 powi e)))"
proof (cases "q = 0")
  case True
  then show ?thesis by (simp add: fl_def)
next
  case False
  define e where "e = expo q"
  define m where "m = rhe (q / 2 powi e)"
  have r: "rne q = of_int m * 2 powi e" using False by (simp add: rne_def m_def e_def)
  consider "0 < m" | "m = 0" | "m < 0" by linarith
  then have "fl q = (if 1024 < e + bitlen \<bar>m\<bar> then (if 0 < m then PosInf else NegInf)
        else Finite (of_int m * 2 powi e))"
  proof cases
    case 1
    have "\<not> (of_int m :: rat) * 2 powi e \<le> - (2 ^ 1024)"
    proof -
      have "0 \<le> (of_int m :: rat) * 2 powi e" using 1 by simp
      moreover have "- (2 ^ 1024) < (0::rat)" by simp
      ultimately show ?thesis by linarith
    qed
    then show ?thesis using 1 grid_overflow_iff [OF 1, of e] by (simp add: fl_def r)
  next
    case 2
    have "e = - 1074"
    proof (rule ccontr)
      assume "e \<noteq> - 1074"
      with expo_ge [of q] have "- 1074 < expo q" by (simp add: e_def)
      from mant_lower [OF False this] 2 show False by (simp add: m_def e_def)
    qed
    with 2 show ?thesis by (simp add: fl_def r)
  next
    case 3
    then have pos: "0 < - m" by simp
    have "\<not> 2 ^ 1024 \<le> (of_int m :: rat) * 2 powi e"
    proof -
      have "(of_int m :: rat) * 2 powi e \<le> 0" using 3 by (simp add: mult_le_0_iff)
      moreover have "(0::rat) < 2 ^ 1024" by simp
      ultimately show ?thesis by linarith
    qed
    moreover have "((of_int m :: rat) * 2 powi e \<le> - (2 ^ 1024)) = (1024 < e + bitlen (- m))"
      using grid_overflow_iff [OF pos, of e] by (simp add: le_minus_iff)
    ultimately show ?thesis using 3 by (simp add: fl_def r)
  qed
  then show ?thesis using False by (simp add: Let_def e_def m_def)
qed

section \<open>Sequencing\<close>

lemma andthen_assoc: "andthen (andthen m f) g = andthen m (\<lambda>x. andthen (f x) g)"
  by (cases m) simp_all

lemma andthen_Inr_iff: "andthen m f = Inr y \<longleftrightarrow> (\<exists>x. m = Inr x \<and> f x = Inr y)"
  by (cases m) simp_all

lemma fl_100: "fl 100 = Finite 100"
  by code_simp

section \<open>The scenarios\<close>

text \<open>
  C5. For \<^verbatim>\<open>items=[{price:10, quantity:12}]\<close> and a gold customer in CA, with no
  \<^verbatim>\<open>tax_rate\<close>, \<^verbatim>\<open>calculate_total\<close> returns subtotal 120.00, discount 30.00 (volume
  12.00 plus loyalty 18.00), tax 7.20 and total 97.20.
\<close>

theorem scenario_gold_CA:
  "returns_fields
     (calculate_total [\<lparr>price = PyInt 10, quantity = 12\<rparr>]
        [''loyaltyTier'' \<mapsto> ''gold'', ''state'' \<mapsto> ''CA''] None)
     (lit 120) (lit 30) (lit (720 / 100)) (lit (9720 / 100))
   \<and> sum_products (PyInt 0) [\<lparr>price = PyInt 10, quantity = 12\<rparr>] = Inr (PyInt 120)
   \<and> volume_discount (PyInt 120) [\<lparr>price = PyInt 10, quantity = 12\<rparr>] = Inr (lit 12)
   \<and> loyalty_discount (PyInt 120) [''loyaltyTier'' \<mapsto> ''gold'', ''state'' \<mapsto> ''CA''] = Inr (lit 18)"
  by code_simp

text \<open>
  C2, as stated: for \<^verbatim>\<open>items=[{price:5, quantity:2}]\<close> and a bronze customer in NY the
  call would return subtotal 10.00, discount 0.50, tax 0.48 and total 9.98. It does not:
  the sum \<^verbatim>\<open>9.5 + 0.47500000000000003\<close> is rounded to the float written 9.975, which
  lies below 9.975, and \<^verbatim>\<open>round\<close> takes it down to 9.97.
\<close>

theorem scenario_bronze_NY_not_998:
  "\<not> returns_fields
     (calculate_total [\<lparr>price = PyInt 5, quantity = 2\<rparr>]
        [''loyaltyTier'' \<mapsto> ''bronze'', ''state'' \<mapsto> ''NY''] None)
     (lit 10) (lit (50 / 100)) (lit (48 / 100)) (lit (998 / 100))"
  by code_simp

text \<open>
  C2, amended: the call returns subtotal 10.00, discount 0.50, tax 0.48 and total 9.97.
\<close>

theorem scenario_bronze_NY:
  "returns_fields
     (calculate_total [\<lparr>price = PyInt 5, quantity = 2\<rparr>]
        [''loyaltyTier'' \<mapsto> ''bronze'', ''state'' \<mapsto> ''NY''] None)
     (lit 10) (lit (50 / 100)) (lit (48 / 100)) (lit (997 / 100))"
  by code_simp

section \<open>The order minimum\<close>

text \<open>
  C9. \<^verbatim>\<open>validate_order(order_total, minimum)\<close> is true exactly when the value of
  \<^verbatim>\<open>order_total\<close> is at least the value of \<^verbatim>\<open>minimum\<close>, neither of them rounded;
  the minimum is 10.00 when omitted; \<^verbatim>\<open>validate_order(9.99)\<close> is false and
  \<^verbatim>\<open>validate_order(10.00)\<close> is true.
\<close>

theorem validate_order_iff:
  "(is_finite order_total \<and> is_finite minimum \<longrightarrow>
      validate_order order_total (Some minimum) = (rv minimum \<le> rv order_total))
   \<and> validate_order order_total (Some minimum) = py_ge order_total minimum
   \<and> validate_order order_total None = validate_order order_total (Some (lit 10))
   \<and> \<not> validate_order (lit (999 / 100)) None
   \<and> validate_order (lit 10) None"
proof -
  have exact: "is_finite order_total \<and> is_finite minimum \<longrightarrow>
      validate_order order_total (Some minimum) = (rv minimum \<le> rv order_total)"
    by (cases order_total rule: is_finite.cases; cases minimum rule: is_finite.cases)
      (simp_all add: validate_order_def py_ge_def)
  have e1: "\<not> validate_order (lit (999 / 100)) None" by code_simp
  have e2: "validate_order (lit 10) None" by code_simp
  from exact e1 e2 show ?thesis by (simp add: validate_order_def)
qed

theorem validate_order_iff_witness:
  "is_finite (lit (999 / 100)) \<and> is_finite (PyInt 10)
   \<and> validate_order (lit (999 / 100)) (Some (PyInt 10)) = (rv (PyInt 10) \<le> rv (lit (999 / 100)))
   \<and> \<not> validate_order (lit (999 / 100)) (Some (PyInt 10))"
proof -
  have f: "is_finite (lit (999 / 100)) \<and> is_finite (PyInt 10)" by code_simp
  have n: "\<not> validate_order (lit (999 / 100)) (Some (PyInt 10))" by code_simp
  from validate_order_iff [of "lit (999 / 100)" "PyInt 10"] f n show ?thesis by blast
qed

section \<open>The structure of a call\<close>

lemma fl_0 [simp]: "fl 0 = Finite 0"
  by (simp add: fl_def)


lemma calculate_total_Inr:
  assumes "calculate_total items user tr = Inr s"
  obtains S V L D r ta tx tt where
    "sum_products (PyInt 0) items = Inr S" "volume_discount S items = Inr V"
    "loyalty_discount S user = Inr L" "py_add V L = Inr D"
    "effective_tax_rate user tr = Inr r" "py_sub S D = Inr ta"
    "py_mul ta r = Inr tx" "py_add ta tx = Inr tt"
    "s = \<lparr>subtotal = py_round2 S, discount = py_round2 D, tax = py_round2 tx, total = py_round2 tt\<rparr>"
  using assms unfolding calculate_total_def andthen_Inr_iff by force

lemma as_float_error: "as_float x = Inl e \<Longrightarrow> e = OverflowError"
  by (cases x) (auto split: pyfloat.splits)






text \<open>
  C10. The \<^verbatim>\<open>tax_rate\<close> argument affects only the tax and the total: a call with an
  override and the call without one return the same subtotal and the same discount.
\<close>

theorem tax_rate_frame:
  "calculate_total items user (Some r) = Inr s1 \<Longrightarrow> calculate_total items user None = Inr s2
   \<Longrightarrow> subtotal s1 = subtotal s2 \<and> discount s1 = discount s2"
  by (erule calculate_total_Inr, erule calculate_total_Inr) simp

theorem tax_rate_frame_witness:
  "calculate_total [\<lparr>price = PyInt 10, quantity = 12\<rparr>]
      [''loyaltyTier'' \<mapsto> ''gold'', ''state'' \<mapsto> ''CA''] (Some (lit (20 / 100)))
     = Inr \<lparr>subtotal = PyInt 120, discount = lit 30, tax = lit 18, total = lit 108\<rparr>
   \<and> calculate_total [\<lparr>price = PyInt 10, quantity = 12\<rparr>]
      [''loyaltyTier'' \<mapsto> ''gold'', ''state'' \<mapsto> ''CA''] None
     = Inr \<lparr>subtotal = PyInt 120, discount = lit 30, tax = lit (720 / 100), total = lit (9720 / 100)\<rparr>
   \<and> subtotal \<lparr>subtotal = PyInt 120, discount = lit 30, tax = lit 18, total = lit 108\<rparr>
     = subtotal \<lparr>subtotal = PyInt 120, discount = lit 30, tax = lit (720 / 100), total = lit (9720 / 100)\<rparr>
   \<and> discount \<lparr>subtotal = PyInt 120, discount = lit 30, tax = lit 18, total = lit 108\<rparr>
     = discount \<lparr>subtotal = PyInt 120, discount = lit 30, tax = lit (720 / 100), total = lit (9720 / 100)\<rparr>"
proof -
  have a: "calculate_total [\<lparr>price = PyInt 10, quantity = 12\<rparr>]
      [''loyaltyTier'' \<mapsto> ''gold'', ''state'' \<mapsto> ''CA''] (Some (lit (20 / 100)))
     = Inr \<lparr>subtotal = PyInt 120, discount = lit 30, tax = lit 18, total = lit 108\<rparr>"
    by code_simp
  have b: "calculate_total [\<lparr>price = PyInt 10, quantity = 12\<rparr>]
      [''loyaltyTier'' \<mapsto> ''gold'', ''state'' \<mapsto> ''CA''] None
     = Inr \<lparr>subtotal = PyInt 120, discount = lit 30, tax = lit (720 / 100), total = lit (9720 / 100)\<rparr>"
    by code_simp
  from tax_rate_frame [OF a b] a b show ?thesis by blast
qed

lemma effective_tax_rate_Some [simp]: "effective_tax_rate user (Some r) = Inr r"
  by (simp add: effective_tax_rate_def)

lemma effective_tax_rate_None:
  "user ''state'' = Some st \<Longrightarrow>
   effective_tax_rate user None = Inr (if st = ''CA'' then lit (8 / 100) else lit (5 / 100))"
  by (simp add: effective_tax_rate_def subscript_def)

lemma loyalty_discount_state [simp]:
  "loyalty_discount S (user(''state'' := x)) = loyalty_discount S user"
  by (simp add: loyalty_discount_def subscript_def)

text \<open>
  C7. With no \<^verbatim>\<open>tax_rate\<close> the call is the call with the rate 0.08 when
  \<^verbatim>\<open>user['state']\<close> is exactly \<^verbatim>\<open>'CA'\<close> and with the rate 0.05 for every other state.
  A supplied \<^verbatim>\<open>tax_rate\<close> is used whatever the state is (also when there is none):
  the tax is the taxable amount times that rate, rounded.
\<close>

theorem tax_rate_choice:
  "(user ''state'' = Some st \<longrightarrow>
      calculate_total items user None =
      calculate_total items user (Some (if st = ''CA'' then lit (8 / 100) else lit (5 / 100))))
   \<and> calculate_total items (user(''state'' := x)) (Some r) = calculate_total items user (Some r)
   \<and> (calculate_total items user (Some r) = Inr s \<longrightarrow>
        (\<exists>ta tx. taxable_amount items user = Inr ta \<and> py_mul ta r = Inr tx
           \<and> tax s = py_round2 tx))"
proof (intro conjI impI)
  assume "user ''state'' = Some st"
  then show "calculate_total items user None =
      calculate_total items user (Some (if st = ''CA'' then lit (8 / 100) else lit (5 / 100)))"
    unfolding calculate_total_def by (simp only: effective_tax_rate_None effective_tax_rate_Some)
next
  show "calculate_total items (user(''state'' := x)) (Some r) = calculate_total items user (Some r)"
    unfolding calculate_total_def by (simp only: effective_tax_rate_Some loyalty_discount_state)
next
  assume "calculate_total items user (Some r) = Inr s"
  then show "\<exists>ta tx. taxable_amount items user = Inr ta \<and> py_mul ta r = Inr tx
           \<and> tax s = py_round2 tx"
    by (elim calculate_total_Inr) (simp add: taxable_amount_def)
qed

theorem tax_rate_choice_witness:
  "[''loyaltyTier'' \<mapsto> ''gold'', ''state'' \<mapsto> ''CA''] ''state'' = Some ''CA''
   \<and> calculate_total [\<lparr>price = PyInt 10, quantity = 12\<rparr>]
        [''loyaltyTier'' \<mapsto> ''gold'', ''state'' \<mapsto> ''CA''] None
     = calculate_total [\<lparr>price = PyInt 10, quantity = 12\<rparr>]
        [''loyaltyTier'' \<mapsto> ''gold'', ''state'' \<mapsto> ''CA''] (Some (lit (8 / 100)))
   \<and> calculate_total [\<lparr>price = PyInt 10, quantity = 12\<rparr>]
        [''loyaltyTier'' \<mapsto> ''gold'', ''state'' \<mapsto> ''CA''] (Some (lit (8 / 100)))
     = Inr \<lparr>subtotal = PyInt 120, discount = lit 30, tax = lit (720 / 100), total = lit (9720 / 100)\<rparr>
   \<and> (\<exists>ta tx. taxable_amount [\<lparr>price = PyInt 10, quantity = 12\<rparr>]
          [''loyaltyTier'' \<mapsto> ''gold'', ''state'' \<mapsto> ''CA''] = Inr ta
        \<and> py_mul ta (lit (8 / 100)) = Inr tx \<and> lit (720 / 100) = py_round2 tx)"
proof -
  let ?items = "[\<lparr>price = PyInt 10, quantity = 12\<rparr>]"
  let ?user = "[''loyaltyTier'' \<mapsto> ''gold'', ''state'' \<mapsto> ''CA'']"
  let ?s = "\<lparr>subtotal = PyInt 120, discount = lit 30, tax = lit (720 / 100), total = lit (9720 / 100)\<rparr>"
  have st: "?user ''state'' = Some ''CA''" by simp
  have ret: "calculate_total ?items ?user (Some (lit (8 / 100))) = Inr ?s" by code_simp
  from tax_rate_choice [of ?user "''CA''" ?items "Some ''CA''" "lit (8 / 100)" ?s] st ret
  show ?thesis by simp
qed

section \<open>Overflow\<close>

lemma rne_pow2: "rne (2 ^ k) = 2 ^ k"
  using rne_grid [of "int k" 1] by simp

lemma fl_PosInf:
  assumes "2 ^ 1024 \<le> q"
  shows "fl q = PosInf"
proof -
  from rne_mono [OF assms] have "2 ^ 1024 \<le> rne q" by (simp only: rne_pow2)
  then show ?thesis by (simp add: fl_def)
qed

lemma fl_Finite:
  assumes "\<bar>q\<bar> \<le> (2 ^ 53 - 1) * 2 ^ 971"
  shows "fl q = Finite (rne q)"
proof -
  let ?M = "(2 ^ 53 - 1) * 2 ^ 971 :: rat"
  have g: "rne ?M = ?M" using rne_grid [of 971 "2 ^ 53 - 1"] by simp
  from assms have "q \<le> ?M" and "- ?M \<le> q" by (simp_all add: abs_le_iff)
  from rne_mono [OF this(1)] rne_mono [OF this(2)]
  have "rne q \<le> ?M" and "- ?M \<le> rne q" by (simp_all only: g rne_minus)
  moreover have "?M < 2 ^ 1024" by simp
  ultimately have "rne q < 2 ^ 1024" and "- (2 ^ 1024) < rne q" by linarith+
  then show ?thesis by (simp add: fl_def Let_def)
qed

lemma literal_1e308_times_9: "fmul (fl (10 ^ 308)) (Finite 9) = PosInf"
proof -
  have f: "fl (10 ^ 308) = Finite (rne (10 ^ 308))" by (rule fl_Finite) simp
  have "(2::rat) ^ 1023 \<le> 10 ^ 308" by simp
  from rne_mono [OF this] have "2 ^ 1023 \<le> rne (10 ^ 308)" by (simp only: rne_pow2)
  then have "2 ^ 1024 \<le> rne (10 ^ 308) * 9" by simp
  then have "fl (rne (10 ^ 308) * 9) = PosInf" by (rule fl_PosInf)
  then show ?thesis by (simp only: f fmul.simps)
qed

section \<open>The loyalty tier\<close>

lemma tier_discounts_unknown:
  "t \<notin> {''bronze'', ''silver'', ''gold''} \<Longrightarrow> dict_get tier_discounts t (PyInt 0) = PyInt 0"
  by (simp add: dict_get_def tier_discounts_def)

lemma rhe_0 [simp]: "rhe 0 = 0"
  by (simp add: rhe_def)

lemma py_mul_zero:
  "is_finite S \<Longrightarrow> \<exists>z. py_mul S (PyInt 0) = Inr z \<and> py_eq z (PyInt 0) \<and> is_finite z
     \<and> py_add (PyInt 0) z = Inr z \<and> py_eq (py_round2 z) (PyInt 0)"
  by (cases S rule: is_finite.cases) (simp_all add: py_eq_def)




section \<open>Orders below ten items\<close>

lemma fl_9: "fl 9 = Finite 9"
  by code_simp

lemma is_finite_round2: "is_finite (py_round2 S) \<Longrightarrow> is_finite S"
  by (cases S rule: py_round2.cases) simp_all

lemma overflowing_order:
  assumes "fmul p (Finite 9) = PosInf"
  shows "calculate_total [\<lparr>price = PyFloat p, quantity = 9\<rparr>]
      [''loyaltyTier'' \<mapsto> ''basic'', ''state'' \<mapsto> ''NY''] None
    = Inr \<lparr>subtotal = PyFloat PosInf, discount = PyFloat NaN, tax = PyFloat NaN, total = PyFloat NaN\<rparr>"
  by (simp add: calculate_total_def volume_discount_def total_items_def loyalty_discount_def
      subscript_def dict_get_def tier_discounts_def effective_tax_rate_def lit_def fl_9 assms fsub_def)

text \<open>
  C6, as stated: with fewer than ten items and a tier that is none of the three names
  the discount would always be 0. Nine items at the price \<^verbatim>\<open>1e308\<close> overflow the
  subtotal to \<^verbatim>\<open>inf\<close>, and the loyalty discount \<^verbatim>\<open>inf * 0\<close> is NaN.
\<close>

theorem overflowing_subtotal_discount_nan:
  "total_items [\<lparr>price = lit (10 ^ 308), quantity = 9\<rparr>] < 10
   \<and> calculate_total [\<lparr>price = lit (10 ^ 308), quantity = 9\<rparr>]
        [''loyaltyTier'' \<mapsto> ''basic'', ''state'' \<mapsto> ''NY''] None
     = Inr \<lparr>subtotal = PyFloat PosInf, discount = PyFloat NaN, tax = PyFloat NaN, total = PyFloat NaN\<rparr>
   \<and> \<not> py_eq (PyFloat NaN) (PyInt 0)"
proof -
  have "total_items [\<lparr>price = lit (10 ^ 308), quantity = 9\<rparr>] < 10"
    by (simp add: total_items_def)
  moreover note overflowing_order [OF literal_1e308_times_9, folded lit_def]
  moreover have "\<not> py_eq (PyFloat NaN) (PyInt 0)" by (simp add: py_eq_def)
  ultimately show ?thesis by (intro conjI)
qed

text \<open>
  C6, amended. With a total quantity below ten and a tier that is none of the three
  names, a call that returns a finite subtotal returns a discount equal to 0.
\<close>

theorem no_discount_below_ten:
  assumes "calculate_total items user tr = Inr s"
    and "total_items items < 10"
    and "user ''loyaltyTier'' \<notin> {Some ''bronze'', Some ''silver'', Some ''gold''}"
    and "is_finite (subtotal s)"
  shows "py_eq (discount s) (PyInt 0)"
proof -
  from assms(1) obtain S V L D where
    S: "sum_products (PyInt 0) items = Inr S" and V: "volume_discount S items = Inr V"
    and L: "loyalty_discount S user = Inr L" and D: "py_add V L = Inr D"
    and s: "subtotal s = py_round2 S" "discount s = py_round2 D"
    by (elim calculate_total_Inr) simp
  from V assms(2) have V0: "V = PyInt 0" by (simp add: volume_discount_def)
  from L obtain t where t: "user ''loyaltyTier'' = Some t"
    by (cases "user ''loyaltyTier''") (simp_all add: loyalty_discount_def subscript_def)
  with assms(3) have "t \<notin> {''bronze'', ''silver'', ''gold''}" by simp
  with L t have L0: "py_mul S (PyInt 0) = Inr L"
    by (simp add: loyalty_discount_def subscript_def tier_discounts_unknown)
  from assms(4) s(1) have "is_finite S" by (simp add: is_finite_round2)
  from py_mul_zero [OF this] L0 have "py_add (PyInt 0) L = Inr L" and r: "py_eq (py_round2 L) (PyInt 0)"
    by auto
  with D V0 have "D = L" by simp
  with r s(2) show ?thesis by simp
qed

theorem no_discount_below_ten_witness:
  "calculate_total [\<lparr>price = PyInt 5, quantity = 2\<rparr>]
       [''loyaltyTier'' \<mapsto> ''platinum'', ''state'' \<mapsto> ''NY''] None
     = Inr \<lparr>subtotal = PyInt 10, discount = PyInt 0, tax = lit (50 / 100), total = lit (1050 / 100)\<rparr>
   \<and> total_items [\<lparr>price = PyInt 5, quantity = 2\<rparr>] < 10
   \<and> [''loyaltyTier'' \<mapsto> ''platinum'', ''state'' \<mapsto> ''NY''] ''loyaltyTier''
       \<notin> {Some ''bronze'', Some ''silver'', Some ''gold''}
   \<and> is_finite (subtotal \<lparr>subtotal = PyInt 10, discount = PyInt 0, tax = lit (50 / 100), total = lit (1050 / 100)\<rparr>)
   \<and> py_eq (discount \<lparr>subtotal = PyInt 10, discount = PyInt 0, tax = lit (50 / 100), total = lit (1050 / 100)\<rparr>)
        (PyInt 0)"
proof -
  let ?u = "[''loyaltyTier'' \<mapsto> ''platinum'', ''state'' \<mapsto> ''NY'']"
  let ?items = "[\<lparr>price = PyInt 5, quantity = 2\<rparr>]"
  let ?s = "\<lparr>subtotal = PyInt 10, discount = PyInt 0, tax = lit (50 / 100), total = lit (1050 / 100)\<rparr>"
  have h1: "calculate_total ?items ?u None = Inr ?s" by code_simp
  have h2: "total_items ?items < 10" by (simp add: total_items_def)
  have h3: "?u ''loyaltyTier'' \<notin> {Some ''bronze'', Some ''silver'', Some ''gold''}" by simp
  have h4: "is_finite (subtotal ?s)" by simp
  from no_discount_below_ten [OF h1 h2 h3 h4] h1 h2 h3 h4 show ?thesis by (intro conjI)
qed

section \<open>Monotonicity of the float operations\<close>

lemma fl_not_NaN [simp]: "fl q \<noteq> NaN"
  by (simp add: fl_def Let_def)

lemma fl_mono:
  assumes "x \<le> y"
  shows "fge (fl y) (fl x)"
proof -
  from rne_mono [OF assms] have "rne x \<le> rne y" .
  moreover have "- (2 ^ 1024) < (2 ^ 1024 :: rat)" by simp
  ultimately show ?thesis by (auto simp add: fl_def Let_def)
qed

lemma fl_nonneg:
  assumes "0 \<le> q"
  shows "nonneg_float (fl q)"
proof -
  from rne_nonneg [OF assms] have "0 \<le> rne q" .
  moreover have "- (2 ^ 1024) < (0 :: rat)" by simp
  ultimately show ?thesis by (auto simp add: fl_def Let_def)
qed

lemma fl_fixed: "rne a = a \<Longrightarrow> 0 \<le> a \<Longrightarrow> a < 2 ^ 1024 \<Longrightarrow> fl a = Finite a"
proof -
  assume a: "rne a = a" "0 \<le> a" "a < 2 ^ 1024"
  have "- (2 ^ 1024) < (0 :: rat)" by simp
  with a show ?thesis by (auto simp add: fl_def Let_def)
qed

lemma fge_refl: "x \<noteq> NaN \<Longrightarrow> fge x x"
  by (cases x) simp_all

lemma fadd_nonneg_ge:
  assumes "nonneg_float v" and "nonneg_float l"
  shows "fge (fadd v l) v"
proof (cases v)
  case v: (Finite a)
  show ?thesis
  proof (cases l)
    case (Finite b)
    with assms v have "a \<le> a + b" and "fl a = Finite a" by (simp_all add: fl_fixed)
    with fl_mono [of a "a + b"] show ?thesis by (simp add: v Finite)
  qed (use assms v in simp_all)
qed (use assms in \<open>cases l; simp\<close>)+

lemma fadd_zero_nonneg:
  assumes "nonneg_float v"
  shows "fadd v (Finite 0) = v"
  using assms by (cases v) (simp_all add: fl_fixed)

lemma nonneg_float_not_NaN: "nonneg_float v \<Longrightarrow> v \<noteq> NaN"
  by (cases v) simp_all

lemma py_round2_mono:
  assumes "fge x y"
  shows "py_ge (py_round2 (PyFloat x)) (py_round2 (PyFloat y))"
proof (cases x)
  case x: (Finite a)
  show ?thesis
  proof (cases y)
    case (Finite b)
    with assms x have "b \<le> a" by simp
    then have "b * 100 \<le> a * 100" by simp
    from rhe_mono [OF this] have "(of_int (rhe (b * 100)) :: rat) / 100 \<le> of_int (rhe (a * 100)) / 100"
      by simp
    from fl_mono [OF this] show ?thesis by (simp add: py_ge_def x Finite)
  next
    case NegInf
    have "fge z NegInf" if "z \<noteq> NaN" for z using that by (cases z) simp_all
    then show ?thesis by (simp add: py_ge_def x NegInf)
  qed (use assms x in simp_all)
next
  case x: PosInf
  have "fge PosInf z" if "z \<noteq> NaN" for z using that by (cases z) simp_all
  with assms x show ?thesis by (cases y) (simp_all add: py_ge_def)
qed (use assms in \<open>cases y; simp add: py_ge_def\<close>)+

lemma lit_nonneg:
  assumes "0 \<le> c" and "c \<le> 1"
  obtains c' where "lit c = PyFloat (Finite c')" "0 \<le> c'"
proof -
  have "\<bar>c\<bar> \<le> (2 ^ 53 - 1) * 2 ^ 971" using assms by simp
  from fl_Finite [OF this] rne_nonneg [OF assms(1)] that show ?thesis by (simp add: lit_def)
qed

lemma py_mul_nonneg:
  assumes "is_finite S" and "py_ge S (PyInt 0)" and "0 \<le> c"
    and "py_mul S (PyFloat (Finite c)) = Inr V"
  obtains v where "V = PyFloat v" "nonneg_float v"
proof (cases S rule: is_finite.cases)
  case (1 n)
  with assms(2) have n: "0 \<le> n" by (simp add: py_ge_def)
  then have "nonneg_float (fl (of_int n))" by (intro fl_nonneg) simp
  moreover from assms(4) 1 obtain r where r: "fl (of_int n) = Finite r"
    and V: "V = PyFloat (fl (r * c))"
    by (auto simp add: andthen_Inr_iff split: pyfloat.splits)
  ultimately have "0 \<le> r * c" using assms(3) by simp
  from fl_nonneg [OF this] V that show ?thesis by blast
next
  case (2 q)
  with assms(2) have q: "0 \<le> q" by (simp add: py_ge_def)
  from assms(4) 2 have V: "V = PyFloat (fl (q * c))" by simp
  from q assms(3) have "0 \<le> q * c" by simp
  from fl_nonneg [OF this] V that show ?thesis by blast
qed (use assms(1) in simp_all)

section \<open>The volume discount\<close>

lemma tier_rate_cases:
  obtains "dict_get tier_discounts t (PyInt 0) = PyInt 0"
  | c where "0 \<le> c" "c \<le> 1" "dict_get tier_discounts t (PyInt 0) = lit c"
proof -
  have "dict_get tier_discounts t (PyInt 0) = PyInt 0
      \<or> dict_get tier_discounts t (PyInt 0) = lit (5 / 100)
      \<or> dict_get tier_discounts t (PyInt 0) = lit (10 / 100)
      \<or> dict_get tier_discounts t (PyInt 0) = lit (15 / 100)"
    by (simp add: dict_get_def tier_discounts_def)
  then show ?thesis
  proof (elim disjE)
    assume "dict_get tier_discounts t (PyInt 0) = lit (5 / 100)"
    then show ?thesis by (intro that(2) [of "5 / 100"]) simp_all
  next
    assume "dict_get tier_discounts t (PyInt 0) = lit (10 / 100)"
    then show ?thesis by (intro that(2) [of "10 / 100"]) simp_all
  next
    assume "dict_get tier_discounts t (PyInt 0) = lit (15 / 100)"
    then show ?thesis by (intro that(2) [of "15 / 100"]) simp_all
  qed (rule that(1))
qed

lemma py_add_zero_product:
  assumes "is_finite S" and "py_mul S (PyInt 0) = Inr z"
  shows "py_add (PyFloat v) z = Inr (PyFloat (fadd v (Finite 0)))"
  using assms by (cases S rule: is_finite.cases) auto

text \<open>
  C3, as stated: with a total quantity of ten or more the returned discount would be at
  least \<^verbatim>\<open>subtotal * 0.10\<close>. Twelve items at 0.12 have the subtotal 1.44 and the
  discount 0.144, which is returned as 0.14.
\<close>

theorem rounded_discount_below_tenth:
  "10 \<le> total_items [\<lparr>price = lit (12 / 100), quantity = 12\<rparr>]
   \<and> calculate_total [\<lparr>price = lit (12 / 100), quantity = 12\<rparr>]
        [''loyaltyTier'' \<mapsto> ''basic'', ''state'' \<mapsto> ''NY''] None
     = Inr \<lparr>subtotal = lit (144 / 100), discount = lit (14 / 100), tax = lit (6 / 100),
            total = lit (136 / 100)\<rparr>
   \<and> \<not> discount_at_least_tenth \<lparr>subtotal = lit (144 / 100), discount = lit (14 / 100),
            tax = lit (6 / 100), total = lit (136 / 100)\<rparr>
   \<and> rv (lit (14 / 100)) < rv (lit (144 / 100)) * (1 / 10)"
  by code_simp

text \<open>
  C3, amended. With a total quantity of ten or more and a finite subtotal that is not
  negative, the returned discount is at least the volume discount \<^verbatim>\<open>subtotal * 0.10\<close>
  rounded to two decimals, \<^verbatim>\<open>subtotal\<close> being the sum before it is rounded.
\<close>

theorem discount_at_least_rounded_tenth:
  assumes "calculate_total items user tr = Inr s"
    and "10 \<le> total_items items"
    and "sum_products (PyInt 0) items = Inr S"
    and "is_finite S"
    and "py_ge S (PyInt 0)"
  shows "\<exists>v. py_mul S (lit (10 / 100)) = Inr v \<and> py_ge (discount s) (py_round2 v)"
proof -
  from assms(1,3) obtain V L D where
    V: "volume_discount S items = Inr V"
    and L: "loyalty_discount S user = Inr L" and D: "py_add V L = Inr D"
    and s: "discount s = py_round2 D"
    by (elim calculate_total_Inr) simp
  from V assms(2) have V': "py_mul S (lit (10 / 100)) = Inr V" by (simp add: volume_discount_def)
  obtain c where c: "lit (10 / 100) = PyFloat (Finite c)" "0 \<le> c"
    by (rule lit_nonneg [of "10 / 100"]) simp_all
  from V' obtain v where v: "V = PyFloat v" "nonneg_float v"
    unfolding c(1) by (rule py_mul_nonneg [OF assms(4,5) c(2)])
  from L obtain t where L': "py_mul S (dict_get tier_discounts t (PyInt 0)) = Inr L"
    by (cases "user ''loyaltyTier''") (simp_all add: loyalty_discount_def subscript_def)
  have "\<exists>d. D = PyFloat d \<and> fge d v"
  proof (cases t rule: tier_rate_cases)
    case 1
    with L' have "py_mul S (PyInt 0) = Inr L" by simp
    from py_add_zero_product [OF assms(4) this, of v] D v
    have "D = PyFloat v" by (simp add: fadd_zero_nonneg)
    with v(2) show ?thesis by (simp add: fge_refl nonneg_float_not_NaN)
  next
    case (2 r)
    obtain r' where r': "lit r = PyFloat (Finite r')" "0 \<le> r'"
      using 2(1,2) by (rule lit_nonneg)
    from L' obtain l where l: "L = PyFloat l" "nonneg_float l"
      unfolding 2(3) r'(1) by (rule py_mul_nonneg [OF assms(4,5) r'(2)])
    with D v have "D = PyFloat (fadd v l)" by simp
    with fadd_nonneg_ge [OF v(2) l(2)] show ?thesis by simp
  qed
  then obtain d where "D = PyFloat d" "fge d v" by blast
  with py_round2_mono [of d v] s v(1) have "py_ge (discount s) (py_round2 V)" by simp
  with V' show ?thesis by blast
qed

theorem discount_at_least_rounded_tenth_witness:
  "calculate_total [\<lparr>price = lit (12 / 100), quantity = 12\<rparr>]
        [''loyaltyTier'' \<mapsto> ''gold'', ''state'' \<mapsto> ''NY''] None
     = Inr \<lparr>subtotal = lit (144 / 100), discount = lit (36 / 100), tax = lit (5 / 100),
            total = lit (113 / 100)\<rparr>
   \<and> 10 \<le> total_items [\<lparr>price = lit (12 / 100), quantity = 12\<rparr>]
   \<and> sum_products (PyInt 0) [\<lparr>price = lit (12 / 100), quantity = 12\<rparr>] = Inr (lit (144 / 100))
   \<and> is_finite (lit (144 / 100))
   \<and> py_ge (lit (144 / 100)) (PyInt 0)
   \<and> (\<exists>v. py_mul (lit (144 / 100)) (lit (10 / 100)) = Inr v
        \<and> py_ge (discount \<lparr>subtotal = lit (144 / 100), discount = lit (36 / 100),
             tax = lit (5 / 100), total = lit (113 / 100)\<rparr>) (py_round2 v))"
proof -
  let ?items = "[\<lparr>price = lit (12 / 100), quantity = 12\<rparr>]"
  let ?u = "[''loyaltyTier'' \<mapsto> ''gold'', ''state'' \<mapsto> ''NY'']"
  have h1: "calculate_total ?items ?u None
     = Inr \<lparr>subtotal = lit (144 / 100), discount = lit (36 / 100), tax = lit (5 / 100),
            total = lit (113 / 100)\<rparr>"
    by code_simp
  have h2: "10 \<le> total_items ?items" by (simp add: total_items_def)
  have h3: "sum_products (PyInt 0) ?items = Inr (lit (144 / 100))" by code_simp
  have h4: "is_finite (lit (144 / 100))" by code_simp
  have h5: "py_ge (lit (144 / 100)) (PyInt 0)" by code_simp
  from discount_at_least_rounded_tenth [OF h1 h2 h3 h4 h5] h1 h2 h3 h4 h5
  show ?thesis by (intro conjI)
qed

section \<open>Error bounds for amounts below \<open>2 ^ 32\<close>\<close>

lemma rne_error_small:
  assumes "\<bar>q\<bar> \<le> 2 ^ 32"
  shows "\<bar>rne q - q\<bar> \<le> 1 / 2 ^ 21"
proof (cases "q = 0")
  case True
  then show ?thesis by simp
next
  case False
  then have pos: "0 < \<bar>q\<bar>" by simp
  have "(2::rat) ^ 32 < 2 powi 33" by simp
  with ilog2_bounds(1) [OF pos] assms have "(2::rat) powi ilog2 \<bar>q\<bar> < 2 powi 33" by linarith
  then have "ilog2 \<bar>q\<bar> < 33" by (rule powi2_less_cancel)
  then have "expo q \<le> - 20" by (simp add: expo_def)
  then have "(2::rat) powi expo q \<le> 2 powi (- 20)" by (intro power_int_increasing) auto
  also have "\<dots> = 1 / 2 ^ 20" by (simp add: power_int_minus_divide)
  finally have "(2::rat) powi expo q / 2 \<le> 1 / 2 ^ 21" by simp
  with rne_error [OF False] show ?thesis by linarith
qed

lemma fl_small:
  assumes "\<bar>q\<bar> \<le> 2 ^ 32"
  shows "fl q = Finite (rne q)"
proof -
  have "(2::rat) ^ 32 \<le> (2 ^ 53 - 1) * 2 ^ 971" by simp
  with assms have "\<bar>q\<bar> \<le> (2 ^ 53 - 1) * 2 ^ 971" by linarith
  then show ?thesis by (rule fl_Finite)
qed

lemma rne_of_int_small:
  assumes "\<bar>n\<bar> \<le> 2 ^ 53"
  shows "rne (of_int n) = of_int n"
  using rne_grid [of 0 n] assms by simp

lemma as_float_rv:
  assumes "is_finite x" and "\<bar>rv x\<bar> \<le> 2 ^ 32"
  shows "as_float x = Inr (Finite (rv x))"
proof (cases x rule: is_finite.cases)
  case (1 n)
  with assms(2) have "\<bar>(of_int n :: rat)\<bar> \<le> 2 ^ 32" by simp
  then have "\<bar>n\<bar> \<le> 2 ^ 32" by (metis of_int_abs of_int_le_numeral_power_cancel_iff)
  then have "\<bar>n\<bar> \<le> 2 ^ 53" by simp
  from rne_of_int_small [OF this] fl_small [of "of_int n"] assms(2) 1 show ?thesis by simp
qed (use assms(1) in simp_all)

lemma py_add_small:
  assumes "is_finite x" and "is_finite y" and "\<bar>rv x\<bar> + \<bar>rv y\<bar> \<le> 2 ^ 32"
  obtains z where "py_add x y = Inr z" "is_finite z" "\<bar>rv z - (rv x + rv y)\<bar> \<le> 1 / 2 ^ 21"
proof -
  have s: "\<bar>rv x + rv y\<bar> \<le> 2 ^ 32" using assms(3) by linarith
  have x: "as_float x = Inr (Finite (rv x))" using assms(1,3) by (intro as_float_rv) linarith+
  have y: "as_float y = Inr (Finite (rv y))" using assms(2,3) by (intro as_float_rv) linarith+
  have f: "py_add x y = Inr (PyFloat (Finite (rne (rv x + rv y))))" if "\<not> (\<exists>a b. x = PyInt a \<and> y = PyInt b)"
    using that assms(1,2) x y fl_small [OF s]
    by (cases x rule: is_finite.cases; cases y rule: is_finite.cases) simp_all
  show ?thesis
  proof (cases "\<exists>a b. x = PyInt a \<and> y = PyInt b")
    case True
    then obtain a b where "x = PyInt a" "y = PyInt b" by blast
    then show ?thesis by (intro that [of "PyInt (a + b)"]) simp_all
  next
    case False
    from f [OF False] rne_error_small [OF s] show ?thesis
      by (intro that [of "PyFloat (Finite (rne (rv x + rv y)))"]) simp_all
  qed
qed

lemma py_sub_small:
  assumes "is_finite x" and "is_finite y" and "\<bar>rv x\<bar> + \<bar>rv y\<bar> \<le> 2 ^ 32"
  obtains z where "py_sub x y = Inr z" "is_finite z" "\<bar>rv z - (rv x - rv y)\<bar> \<le> 1 / 2 ^ 21"
proof -
  have s: "\<bar>rv x - rv y\<bar> \<le> 2 ^ 32" using assms(3) by linarith
  have x: "as_float x = Inr (Finite (rv x))" using assms(1,3) by (intro as_float_rv) linarith+
  have y: "as_float y = Inr (Finite (rv y))" using assms(2,3) by (intro as_float_rv) linarith+
  have f: "py_sub x y = Inr (PyFloat (Finite (rne (rv x - rv y))))" if "\<not> (\<exists>a b. x = PyInt a \<and> y = PyInt b)"
    using that assms(1,2) x y fl_small [OF s]
    by (cases x rule: is_finite.cases; cases y rule: is_finite.cases) (simp_all add: fsub_def)
  show ?thesis
  proof (cases "\<exists>a b. x = PyInt a \<and> y = PyInt b")
    case True
    then obtain a b where "x = PyInt a" "y = PyInt b" by blast
    then show ?thesis by (intro that [of "PyInt (a - b)"]) simp_all
  next
    case False
    from f [OF False] rne_error_small [OF s] show ?thesis
      by (intro that [of "PyFloat (Finite (rne (rv x - rv y)))"]) simp_all
  qed
qed

text \<open>The amount in cents that \<^verbatim>\<open>round(x, 2)\<close> selects.\<close>

lemma py_round2_small:
  assumes "is_finite x" and "\<bar>rv x\<bar> \<le> 2 ^ 32 - 1"
  shows "is_finite (py_round2 x)"
    and "\<bar>rv (py_round2 x) - of_int (rhe (100 * rv x)) / 100\<bar> \<le> 1 / 2 ^ 21"
proof -
  have "is_finite (py_round2 x)
      \<and> \<bar>rv (py_round2 x) - of_int (rhe (100 * rv x)) / 100\<bar> \<le> 1 / 2 ^ 21"
  proof (cases x rule: is_finite.cases)
    case (1 n)
    have "100 * (of_int n :: rat) = of_int (100 * n)" by simp
    then have "rhe (100 * of_int n) = 100 * n" by (simp only: rhe_of_int)
    with 1 show ?thesis by simp
  next
    case (2 q)
    define c :: rat where "c = of_int (rhe (100 * q)) / 100"
    from rhe_bounds [of "100 * q"] have "\<bar>c - q\<bar> \<le> 1 / 200"
      by (simp add: c_def abs_le_iff field_simps)
    moreover from assms(2) 2 have "\<bar>q\<bar> \<le> 2 ^ 32 - 1" by simp
    ultimately have c: "\<bar>c\<bar> \<le> 2 ^ 32" by linarith
    from fl_small [OF c] rne_error_small [OF c] 2 show ?thesis
      by (simp add: c_def mult.commute)
  qed (use assms(1) in simp_all)
  then show "is_finite (py_round2 x)"
    and "\<bar>rv (py_round2 x) - of_int (rhe (100 * rv x)) / 100\<bar> \<le> 1 / 2 ^ 21" by simp_all
qed

lemma rhe_near_int:
  assumes "\<bar>x - of_int n\<bar> < 1 / 2"
  shows "rhe x = n"
proof -
  from rhe_bounds [of x] assms have "\<bar>(of_int (rhe x) :: rat) - of_int n\<bar> < 1" by linarith
  then have "\<bar>(of_int (rhe x - n) :: rat)\<bar> < 1" by simp
  then have "\<bar>rhe x - n\<bar> < 1" by (metis of_int_abs of_int_less_1_iff)
  then show ?thesis by simp
qed

lemma py_round2_bounded:
  assumes "is_finite (py_round2 x)" and "\<bar>rv (py_round2 x)\<bar> < 10 ^ 9"
  shows "is_finite x" and "\<bar>rv x\<bar> < 10 ^ 9"
proof -
  have "is_finite x \<and> \<bar>rv x\<bar> < 10 ^ 9"
  proof (cases x rule: py_round2.cases)
    case (1 n)
    with assms show ?thesis by simp
  next
    case (2 q)
    define c :: rat where "c = of_int (rhe (q * 100)) / 100"
    have g: "rne (10 ^ 9) = (10 ^ 9 :: rat)" using rne_of_int_small [of "10 ^ 9"] by simp
    from assms 2 obtain r where r: "fl c = Finite r" "\<bar>r\<bar> < 10 ^ 9"
      by (cases "fl c") (simp_all add: c_def)
    have r': "r = rne c" using r(1) by (simp add: fl_def Let_def split: if_splits)
    have "q < 10 ^ 9"
    proof (rule ccontr)
      assume "\<not> q < 10 ^ 9"
      then have "of_int (10 ^ 11) \<le> q * 100" by simp
      from rhe_mono [OF this] have "10 ^ 11 \<le> rhe (q * 100)" by (simp only: rhe_of_int)
      then have "(10 ^ 11 :: rat) \<le> of_int (rhe (q * 100))" by (metis of_int_le_iff of_int_numeral of_int_power)
      then have "10 ^ 9 \<le> c" by (simp add: c_def)
      from rne_mono [OF this] have "10 ^ 9 \<le> rne c" by (simp only: g)
      with r(2) r' show False by linarith
    qed
    moreover have "- (10 ^ 9) < q"
    proof (rule ccontr)
      assume "\<not> - (10 ^ 9) < q"
      then have "q * 100 \<le> of_int (- (10 ^ 11))" by simp
      from rhe_mono [OF this] have "rhe (q * 100) \<le> - (10 ^ 11)" by (simp only: rhe_of_int)
      then have "(of_int (rhe (q * 100)) :: rat) \<le> - (10 ^ 11)" by (metis of_int_le_iff of_int_minus of_int_numeral of_int_power)
      then have "c \<le> - (10 ^ 9)" by (simp add: c_def)
      from rne_mono [OF this] have "rne c \<le> - (10 ^ 9)" by (simp only: g rne_minus)
      with r(2) r' show False by linarith
    qed
    ultimately show ?thesis using 2 by (simp add: abs_less_iff)
  qed (use assms in simp_all)
  then show "is_finite x" and "\<bar>rv x\<bar> < 10 ^ 9" by simp_all
qed

section \<open>The total against the rounded fields\<close>

lemma int_abs_less_3:
  fixes a n :: int
  assumes "\<bar>(of_int a :: rat) - of_int n\<bar> < 3"
  shows "\<bar>a - n\<bar> \<le> 2"
proof -
  from assms have "(of_int \<bar>a - n\<bar> :: rat) < of_int 3" by simp
  then have "\<bar>a - n\<bar> < 3" by (simp only: of_int_less_iff)
  then show ?thesis by simp
qed

lemma total_chain:
  assumes S: "is_finite S" "\<bar>rv S\<bar> < 10 ^ 9"
    and D: "is_finite D" "\<bar>rv D\<bar> < 10 ^ 9"
    and T: "is_finite T" "\<bar>rv T\<bar> < 10 ^ 9"
  obtains net y where "py_sub S D = Inr net" "py_add net T = Inr y" "is_finite y"
    "\<bar>rv y - (rv S - rv D + rv T)\<bar> \<le> 2 * (1 / 2 ^ 21)" "\<bar>rv y\<bar> \<le> 2 ^ 32 - 1"
proof -
  define e :: rat where "e = 1 / 2 ^ 21"
  have e: "0 < e" "e < 1 / 4" by (simp_all add: e_def)
  have p: "(10::rat) ^ 9 = 1000000000" "(2::rat) ^ 32 = 4294967296" by simp_all
  note S' = S(2) [unfolded p] and D' = D(2) [unfolded p] and T' = T(2) [unfolded p]
  have "\<bar>rv S\<bar> + \<bar>rv D\<bar> \<le> 2 ^ 32" unfolding p using S' D' by linarith
  from py_sub_small [OF S(1) D(1) this] obtain net where
    net: "py_sub S D = Inr net" "is_finite net" "\<bar>rv net - (rv S - rv D)\<bar> \<le> e"
    unfolding e_def by blast
  from net(3) S' D' e have nb: "\<bar>rv net\<bar> \<le> 2000000001" by linarith
  with T' have "\<bar>rv net\<bar> + \<bar>rv T\<bar> \<le> 2 ^ 32" unfolding p by linarith
  from py_add_small [OF net(2) T(1) this] obtain y where
    y: "py_add net T = Inr y" "is_finite y" "\<bar>rv y - (rv net + rv T)\<bar> \<le> e"
    unfolding e_def by blast
  from y(3) net(3) have "\<bar>rv y - (rv S - rv D + rv T)\<bar> \<le> 2 * e" by linarith
  then have err: "\<bar>rv y - (rv S - rv D + rv T)\<bar> \<le> 2 * (1 / 2 ^ 21)" by (simp only: e_def)
  from y(3) nb T' e have "\<bar>rv y\<bar> \<le> 4294967296 - 1" by linarith
  then have "\<bar>rv y\<bar> \<le> 2 ^ 32 - 1" by (simp only: p)
  with net(1) y(1,2) err that show ?thesis by blast
qed

text \<open>
  C4, as stated: the returned total would be within 0.01 of
  \<^verbatim>\<open>round(subtotal - discount + tax, 2)\<close>. Ten items at 0.0125 for a silver customer
  and a tax rate of 0.15 give subtotal 0.12 (from 0.125), discount 0.03 (from
  0.025000000000000001), tax 0.01 (from the float 0.015, which lies below the tie) and
  total 0.12 (from 0.115, which lies above it), while the fields recombine to 0.10.
\<close>

theorem total_two_cents_off:
  "calculate_total [\<lparr>price = lit (125 / 10000), quantity = 10\<rparr>]
        [''loyaltyTier'' \<mapsto> ''silver'', ''state'' \<mapsto> ''NY''] (Some (lit (15 / 100)))
     = Inr \<lparr>subtotal = lit (12 / 100), discount = lit (3 / 100), tax = lit (1 / 100),
            total = lit (12 / 100)\<rparr>
   \<and> recomputed_total \<lparr>subtotal = lit (12 / 100), discount = lit (3 / 100), tax = lit (1 / 100),
            total = lit (12 / 100)\<rparr> = Inr (lit (10 / 100))
   \<and> \<not> \<bar>rv (lit (12 / 100)) - rv (lit (10 / 100))\<bar> \<le> 1 / 100"
  by code_simp

text \<open>
  C4, amended. When the returned subtotal, discount and tax are finite and below
  \<open>10 ^ 9\<close> in magnitude, the returned total and \<^verbatim>\<open>round(subtotal - discount + tax, 2)\<close>
  are amounts in cents that differ by at most two cents: as floats they are within 0.02,
  up to a float error below \<open>1 / 10 ^ 6\<close>.
\<close>

theorem total_within_two_cents:
  assumes "calculate_total items user tr = Inr s"
    and "is_finite (subtotal s)" and "is_finite (discount s)" and "is_finite (tax s)"
    and "\<bar>rv (subtotal s)\<bar> < 10 ^ 9" and "\<bar>rv (discount s)\<bar> < 10 ^ 9"
    and "\<bar>rv (tax s)\<bar> < 10 ^ 9"
  shows "\<exists>y. recomputed_total s = Inr y \<and> is_finite (total s) \<and> is_finite y
      \<and> \<bar>rhe (100 * rv (total s)) - rhe (100 * rv y)\<bar> \<le> 2
      \<and> \<bar>rv (total s) - rv y\<bar> \<le> 2 / 100 + 1 / 10 ^ 6"
proof -
  from assms(1) obtain S D T ta tt where
    ta: "py_sub S D = Inr ta" and tt: "py_add ta T = Inr tt"
    and f: "subtotal s = py_round2 S" "discount s = py_round2 D" "tax s = py_round2 T"
      "total s = py_round2 tt"
    by (elim calculate_total_Inr) simp
  have S: "is_finite S" "\<bar>rv S\<bar> < 10 ^ 9"
    using py_round2_bounded [of S] assms(2,5) f(1) by simp_all
  have D: "is_finite D" "\<bar>rv D\<bar> < 10 ^ 9"
    using py_round2_bounded [of D] assms(3,6) f(2) by simp_all
  have T: "is_finite T" "\<bar>rv T\<bar> < 10 ^ 9"
    using py_round2_bounded [of T] assms(4,7) f(3) by simp_all
  define e :: rat where "e = 1 / 2 ^ 21"
  have e: "0 < e" "e < 1 / 2000000" by (simp_all add: e_def)
  have p: "(10::rat) ^ 9 = 1000000000" "(2::rat) ^ 32 = 4294967296" "(10::rat) ^ 6 = 1000000"
    by simp_all
  \<comment> \<open>the total before rounding\<close>
  from total_chain [OF S D T] obtain net0 x0 where
    c: "py_sub S D = Inr net0" "py_add net0 T = Inr x0" "is_finite x0"
      "\<bar>rv x0 - (rv S - rv D + rv T)\<bar> \<le> 2 * e" "\<bar>rv x0\<bar> \<le> 2 ^ 32 - 1"
    unfolding e_def by blast
  from c(1,2) ta tt have "x0 = tt" by simp
  with c(3,4,5) have X: "is_finite tt"
    "\<bar>rv tt - (rv S - rv D + rv T)\<bar> \<le> 2 * e" "\<bar>rv tt\<bar> \<le> 2 ^ 32 - 1"
    by simp_all
  \<comment> \<open>the fields, in cents\<close>
  define kS kD kT where "kS = rhe (100 * rv S)" and "kD = rhe (100 * rv D)"
    and "kT = rhe (100 * rv T)"
  define cS cD cT :: rat where "cS = of_int kS" and "cD = of_int kD" and "cT = of_int kT"
  have hS: "\<bar>cS - 100 * rv S\<bar> \<le> 1 / 2" unfolding cS_def kS_def by (rule rhe_bounds)
  have hD: "\<bar>cD - 100 * rv D\<bar> \<le> 1 / 2" unfolding cD_def kD_def by (rule rhe_bounds)
  have hT: "\<bar>cT - 100 * rv T\<bar> \<le> 1 / 2" unfolding cT_def kT_def by (rule rhe_bounds)
  have sm: "\<bar>rv S\<bar> \<le> 2 ^ 32 - 1" "\<bar>rv D\<bar> \<le> 2 ^ 32 - 1" "\<bar>rv T\<bar> \<le> 2 ^ 32 - 1"
    using S(2) D(2) T(2) unfolding p by linarith+
  have rS: "\<bar>rv (subtotal s) - cS / 100\<bar> \<le> e"
    using py_round2_small(2) [OF S(1) sm(1)] by (simp only: f cS_def kS_def e_def)
  have rD: "\<bar>rv (discount s) - cD / 100\<bar> \<le> e"
    using py_round2_small(2) [OF D(1) sm(2)] by (simp only: f cD_def kD_def e_def)
  have rT: "\<bar>rv (tax s) - cT / 100\<bar> \<le> e"
    using py_round2_small(2) [OF T(1) sm(3)] by (simp only: f cT_def kT_def e_def)
  \<comment> \<open>the total recomputed from the fields\<close>
  from total_chain [OF assms(2,5) assms(3,6) assms(4,7)] obtain net y where
    y: "py_sub (subtotal s) (discount s) = Inr net" "py_add net (tax s) = Inr y" "is_finite y"
      "\<bar>rv y - (rv (subtotal s) - rv (discount s) + rv (tax s))\<bar> \<le> 2 * e"
      "\<bar>rv y\<bar> \<le> 2 ^ 32 - 1"
    unfolding e_def by blast
  have rec: "recomputed_total s = Inr (py_round2 y)" by (simp add: recomputed_total_def y)
  define n where "n = kS - kD + kT"
  have n: "(of_int n :: rat) = cS - cD + cT" by (simp add: n_def cS_def cD_def cT_def)
  from y(4) rS rD rT have "\<bar>100 * rv y - (cS - cD + cT)\<bar> \<le> 500 * e" by linarith
  with e have "\<bar>100 * rv y - of_int n\<bar> < 1 / 2" unfolding n by linarith
  then have ky: "rhe (100 * rv y) = n" by (rule rhe_near_int)
  have Y: "is_finite (py_round2 y)" "\<bar>rv (py_round2 y) - of_int n / 100\<bar> \<le> e"
    using py_round2_small [OF y(3,5)] by (simp_all only: ky e_def)
  from Y(2) e have "\<bar>100 * rv (py_round2 y) - of_int n\<bar> < 1 / 2" by linarith
  then have kY: "rhe (100 * rv (py_round2 y)) = n" by (rule rhe_near_int)
  \<comment> \<open>the returned total\<close>
  define a where "a = rhe (100 * rv tt)"
  have ha: "\<bar>(of_int a :: rat) - 100 * rv tt\<bar> \<le> 1 / 2" unfolding a_def by (rule rhe_bounds)
  have R: "is_finite (total s)" "\<bar>rv (total s) - of_int a / 100\<bar> \<le> e"
    using py_round2_small [OF X(1,3)] by (simp_all only: f a_def e_def)
  from R(2) e have "\<bar>100 * rv (total s) - of_int a\<bar> < 1 / 2" by linarith
  then have kR: "rhe (100 * rv (total s)) = a" by (rule rhe_near_int)
  from X(2) hS hD hT ha e have "\<bar>(of_int a :: rat) - of_int n\<bar> < 3" unfolding n by linarith
  then have an: "\<bar>a - n\<bar> \<le> 2" by (rule int_abs_less_3)
  then have "(of_int \<bar>a - n\<bar> :: rat) \<le> of_int 2" by (simp only: of_int_le_iff)
  then have "\<bar>(of_int a :: rat) - of_int n\<bar> \<le> 2" by simp
  with R(2) Y(2) e have "\<bar>rv (total s) - rv (py_round2 y)\<bar> \<le> 2 / 100 + 1 / 1000000" by linarith
  then have "\<bar>rv (total s) - rv (py_round2 y)\<bar> \<le> 2 / 100 + 1 / 10 ^ 6" by (simp only: p)
  with rec R(1) Y(1) an kR kY show ?thesis by auto
qed

theorem total_within_two_cents_witness:
  "calculate_total [\<lparr>price = lit (125 / 10000), quantity = 10\<rparr>]
        [''loyaltyTier'' \<mapsto> ''silver'', ''state'' \<mapsto> ''NY''] (Some (lit (15 / 100)))
     = Inr \<lparr>subtotal = lit (12 / 100), discount = lit (3 / 100), tax = lit (1 / 100),
            total = lit (12 / 100)\<rparr>
   \<and> is_finite (lit (12 / 100)) \<and> is_finite (lit (3 / 100)) \<and> is_finite (lit (1 / 100))
   \<and> \<bar>rv (lit (12 / 100))\<bar> < 10 ^ 9 \<and> \<bar>rv (lit (3 / 100))\<bar> < 10 ^ 9
   \<and> \<bar>rv (lit (1 / 100))\<bar> < 10 ^ 9
   \<and> (\<exists>y. recomputed_total \<lparr>subtotal = lit (12 / 100), discount = lit (3 / 100),
            tax = lit (1 / 100), total = lit (12 / 100)\<rparr> = Inr y
        \<and> is_finite (lit (12 / 100)) \<and> is_finite y
        \<and> \<bar>rhe (100 * rv (lit (12 / 100))) - rhe (100 * rv y)\<bar> \<le> 2
        \<and> \<bar>rv (lit (12 / 100)) - rv y\<bar> \<le> 2 / 100 + 1 / 10 ^ 6)"
proof -
  let ?s = "\<lparr>subtotal = lit (12 / 100), discount = lit (3 / 100), tax = lit (1 / 100),
            total = lit (12 / 100)\<rparr>"
  have h1: "calculate_total [\<lparr>price = lit (125 / 10000), quantity = 10\<rparr>]
        [''loyaltyTier'' \<mapsto> ''silver'', ''state'' \<mapsto> ''NY''] (Some (lit (15 / 100))) = Inr ?s"
    by code_simp
  have h2: "is_finite (subtotal ?s)" and h3: "is_finite (discount ?s)"
    and h4: "is_finite (tax ?s)" by code_simp+
  have h5: "\<bar>rv (subtotal ?s)\<bar> < 10 ^ 9" and h6: "\<bar>rv (discount ?s)\<bar> < 10 ^ 9"
    and h7: "\<bar>rv (tax ?s)\<bar> < 10 ^ 9" by code_simp+
  from total_within_two_cents [OF h1 h2 h3 h4 h5 h6 h7] h1 h2 h3 h4 h5 h6 h7
  show ?thesis by simp
qed

section \<open>The rounding of a discounted amount\<close>

lemma apply_discount_discounted:
  "apply_discount amount discount_percent =
   andthen (discounted amount discount_percent) (\<lambda>x. Inr (py_round2 x))"
  by (simp add: apply_discount_def discounted_def andthen_assoc)

lemma half_cent:
  "\<bar>(of_int (rhe (q * 100)) :: rat) / 100 - q\<bar> \<le> 1 / 200"
  using rhe_bounds [of "q * 100"] by (simp add: abs_le_iff field_simps)

lemma py_truediv_float: "py_truediv x y = Inr z \<Longrightarrow> \<exists>f. z = PyFloat f"
  by (cases x; cases y) (auto simp add: andthen_Inr_iff split: if_splits pyfloat.splits)

lemma py_mul_float: "py_mul x (PyFloat f) = Inr z \<Longrightarrow> \<exists>g. z = PyFloat g"
  by (cases x) (auto simp add: andthen_Inr_iff)

lemma py_sub_float: "py_sub x (PyFloat f) = Inr z \<Longrightarrow> \<exists>g. z = PyFloat g"
  by (cases x) (auto simp add: andthen_Inr_iff)

lemma discounted_float:
  assumes "discounted amount discount_percent = Inr x"
  shows "\<exists>f. x = PyFloat f"
proof -
  from assms obtain fr d where fr: "py_truediv discount_percent (PyInt 100) = Inr fr"
    and d: "py_mul amount fr = Inr d" and x: "py_sub amount d = Inr x"
    unfolding discounted_def andthen_Inr_iff by blast
  from py_truediv_float [OF fr] obtain f where "fr = PyFloat f" ..
  with d py_mul_float obtain g where "d = PyFloat g" by blast
  with x py_sub_float show ?thesis by blast
qed

text \<open>
  C8. \<^verbatim>\<open>apply_discount(amount, discount_percent)\<close> is
  \<^verbatim>\<open>round(amount - amount * (discount_percent / 100), 2)\<close> for all numbers: every pair of
  floats is accepted, negative percentages and percentages above 100 included, and
  \<^verbatim>\<open>apply_discount(100, 10) == 90.00\<close>, \<^verbatim>\<open>apply_discount(50, 0) == 50.00\<close>. The value
  returned is the rounding to two decimals: \<^verbatim>\<open>apply_discount(19.99, 15)\<close> is 16.99, from
  16.9915; the value before rounding is always a float, and when it is finite the
  result is the float literal of a decimal \<open>k / 100\<close> that lies within half a cent of it
  (within half a cent and a float error, as a float, below \<open>2 ^ 32\<close>).
\<close>

theorem apply_discount_is_formula:
  "apply_discount amount discount_percent = apply_discount_formula amount discount_percent
   \<and> (\<exists>r. apply_discount (PyFloat a) (PyFloat p) = Inr r)
   \<and> apply_discount (PyInt 100) (PyInt 10) = Inr (lit 90)
   \<and> apply_discount (PyInt 50) (PyInt 0) = Inr (lit 50)
   \<and> apply_discount (PyInt 100) (PyInt (- 10)) = Inr (lit 110)
   \<and> apply_discount (PyInt 100) (PyInt 150) = Inr (lit (- 50))
   \<and> discounted (lit (1999 / 100)) (PyInt 15) = Inr (lit (169915 / 10000))
   \<and> apply_discount (lit (1999 / 100)) (PyInt 15) = Inr (lit (1699 / 100))
   \<and> lit (1699 / 100) \<noteq> lit (169915 / 10000)
   \<and> (discounted amount discount_percent = Inr x \<longrightarrow> (\<exists>f. x = PyFloat f))
   \<and> (discounted amount discount_percent = Inr (PyFloat (Finite q)) \<longrightarrow>
        (\<exists>k. apply_discount amount discount_percent = Inr (lit (of_int k / 100))
           \<and> \<bar>of_int k / 100 - q\<bar> \<le> 1 / 200))
   \<and> (discounted amount discount_percent = Inr (PyFloat (Finite q)) \<and> \<bar>q\<bar> \<le> 2 ^ 32 - 1 \<longrightarrow>
        (\<exists>r. apply_discount amount discount_percent = Inr r \<and> is_finite r
           \<and> \<bar>rv r - q\<bar> \<le> 1 / 200 + 1 / 2 ^ 21))"
proof -
  have formula: "apply_discount amount discount_percent = apply_discount_formula amount discount_percent"
    by (simp add: apply_discount_def apply_discount_formula_def andthen_assoc)
  have "\<exists>c. py_truediv (PyFloat p) (PyInt 100) = Inr (PyFloat c)"
    by (simp add: fl_100)
  then obtain c where c: "py_truediv (PyFloat p) (PyInt 100) = Inr (PyFloat c)" ..
  have accepted: "\<exists>r. apply_discount (PyFloat a) (PyFloat p) = Inr r"
    unfolding apply_discount_def c by simp
  have e1: "apply_discount (PyInt 100) (PyInt 10) = Inr (lit 90)" by code_simp
  have e2: "apply_discount (PyInt 50) (PyInt 0) = Inr (lit 50)" by code_simp
  have e3: "apply_discount (PyInt 100) (PyInt (- 10)) = Inr (lit 110)" by code_simp
  have e4: "apply_discount (PyInt 100) (PyInt 150) = Inr (lit (- 50))" by code_simp
  have e5: "discounted (lit (1999 / 100)) (PyInt 15) = Inr (lit (169915 / 10000))" by code_simp
  have e6: "apply_discount (lit (1999 / 100)) (PyInt 15) = Inr (lit (1699 / 100))" by code_simp
  have e7: "lit (1699 / 100) \<noteq> lit (169915 / 10000)" by code_simp
  have fl: "discounted amount discount_percent = Inr x \<longrightarrow> (\<exists>f. x = PyFloat f)"
    by (auto dest: discounted_float)
  have cents: "discounted amount discount_percent = Inr (PyFloat (Finite q)) \<longrightarrow>
        (\<exists>k. apply_discount amount discount_percent = Inr (lit (of_int k / 100))
           \<and> \<bar>of_int k / 100 - q\<bar> \<le> 1 / 200)"
  proof
    assume "discounted amount discount_percent = Inr (PyFloat (Finite q))"
    then have "apply_discount amount discount_percent = Inr (lit (of_int (rhe (q * 100)) / 100))"
      by (simp add: apply_discount_discounted lit_def)
    with half_cent [of q] show "\<exists>k. apply_discount amount discount_percent = Inr (lit (of_int k / 100))
           \<and> \<bar>of_int k / 100 - q\<bar> \<le> 1 / 200" by blast
  qed
  have near: "discounted amount discount_percent = Inr (PyFloat (Finite q)) \<and> \<bar>q\<bar> \<le> 2 ^ 32 - 1 \<longrightarrow>
        (\<exists>r. apply_discount amount discount_percent = Inr r \<and> is_finite r
           \<and> \<bar>rv r - q\<bar> \<le> 1 / 200 + 1 / 2 ^ 21)"
  proof
    assume h: "discounted amount discount_percent = Inr (PyFloat (Finite q)) \<and> \<bar>q\<bar> \<le> 2 ^ 32 - 1"
    let ?x = "PyFloat (Finite q)"
    from h have r: "apply_discount amount discount_percent = Inr (py_round2 ?x)"
      by (simp add: apply_discount_discounted)
    from h have b: "\<bar>rv ?x\<bar> \<le> 2 ^ 32 - 1" by simp
    have f: "is_finite ?x" by simp
    from py_round2_small [OF f b]
    have 1: "is_finite (py_round2 ?x)"
      and 2: "\<bar>rv (py_round2 ?x) - of_int (rhe (100 * q)) / 100\<bar> \<le> 1 / 2 ^ 21" by simp_all
    from half_cent [of q] have 3: "\<bar>(of_int (rhe (100 * q)) :: rat) / 100 - q\<bar> \<le> 1 / 200"
      by (simp add: mult.commute)
    from 2 3 have "\<bar>rv (py_round2 ?x) - q\<bar> \<le> 1 / 200 + 1 / 2 ^ 21" by linarith
    with r 1 show "\<exists>r. apply_discount amount discount_percent = Inr r \<and> is_finite r
           \<and> \<bar>rv r - q\<bar> \<le> 1 / 200 + 1 / 2 ^ 21" by blast
  qed
  from formula accepted e1 e2 e3 e4 e5 e6 e7 fl cents near show ?thesis by blast
qed

theorem apply_discount_is_formula_witness:
  "discounted (lit (1999 / 100)) (PyInt 15)
     = Inr (PyFloat (Finite (4782682066779111 / 281474976710656)))
   \<and> \<bar>4782682066779111 / 281474976710656 :: rat\<bar> \<le> 2 ^ 32 - 1
   \<and> (\<exists>f. PyFloat (Finite (4782682066779111 / 281474976710656)) = PyFloat f)
   \<and> (\<exists>k. apply_discount (lit (1999 / 100)) (PyInt 15) = Inr (lit (of_int k / 100))
         \<and> \<bar>of_int k / 100 - 4782682066779111 / 281474976710656\<bar> \<le> (1 / 200 :: rat))
   \<and> (\<exists>r. apply_discount (lit (1999 / 100)) (PyInt 15) = Inr r \<and> is_finite r
         \<and> \<bar>rv r - 4782682066779111 / 281474976710656\<bar> \<le> 1 / 200 + 1 / 2 ^ 21)"
proof -
  let ?q = "4782682066779111 / 281474976710656 :: rat"
  have h1: "discounted (lit (1999 / 100)) (PyInt 15) = Inr (PyFloat (Finite ?q))" by code_simp
  have h2: "\<bar>?q\<bar> \<le> 2 ^ 32 - 1" by simp
  from apply_discount_is_formula [where amount = "lit (1999 / 100)" and discount_percent = "PyInt 15"
      and q = ?q and x = "PyFloat (Finite ?q)"] h1 h2
  show ?thesis by blast
qed

end
